theory Spec2Isabelle
  imports Main "HOL-Library.Word"
begin

unbundle bit_operations_syntax

section \<open>Data model\<close>

text \<open>
  Bytes are 8-bit words, \<open>std::size_t\<close> and \<open>uint64_t\<close> are 64-bit words whose arithmetic
  wraps, and \<open>int64_t\<close> is a 64-bit word read through \<open>sint\<close>.  A buffer handed to the
  decoder is the list of bytes between its begin and end pointers.  The member
  \<open>file_size_\<close> of the source is the field \<open>file_size\<close> here, since a name cannot end in
  an underscore.
\<close>

type_synonym byte = "8 word"
type_synonym size_t = "64 word"
type_synonym int64_t = "64 word"

datatype State = ReadHeader | ReadFileData | SkipPadding | Done

record BaseTarFilterImpl =
  header_buffer :: "byte list"
  header_bytes_read :: size_t
  file_size :: size_t
  file_bytes_read :: size_t
  padding_bytes :: size_t
  padding_bytes_skipped :: size_t
  state :: State
  current_file_name :: "byte list"

text \<open>The default member initialisers of the class, which the constructor leaves untouched.\<close>

definition BaseTarFilterImpl_init :: BaseTarFilterImpl where
  "BaseTarFilterImpl_init =
     \<lparr> header_buffer = [], header_bytes_read = 0, file_size = 0, file_bytes_read = 0,
       padding_bytes = 0, padding_bytes_skipped = 0, state = ReadHeader,
       current_file_name = [] \<rparr>"

section \<open>Header field decoding\<close>

text \<open>The packed \<open>TarHeader\<close> struct laid over the header buffer: the fields the decoder reads.\<close>

definition TarHeader_name :: "byte list \<Rightarrow> byte list" where
  "TarHeader_name tar = take 100 tar"

definition TarHeader_size :: "byte list \<Rightarrow> byte list" where
  "TarHeader_size tar = take 12 (drop 124 tar)"

definition TarHeader_typeflag :: "byte list \<Rightarrow> byte list" where
  "TarHeader_typeflag tar = take 1 (drop 156 tar)"

definition is_zero_block_impl :: "byte list \<Rightarrow> bool" where
  "is_zero_block_impl block = list_all (\<lambda>i. block ! i = 0) [0..<512]"

definition INT64_MIN :: int64_t where
  "INT64_MIN = 0x8000000000000000"

definition INT64_MAX :: int64_t where
  "INT64_MAX = 0x7FFFFFFFFFFFFFFF"

text \<open>
  The first loop of \<open>parse_base256_impl\<close>: while more than eight bytes remain, the current
  byte must equal the sign filler.  \<open>None\<close> is the early return on overflow; otherwise the
  loop hands on the remaining count, the index of the current byte and the byte itself.
\<close>

function base256_skip :: "byte list \<Rightarrow> byte \<Rightarrow> size_t \<Rightarrow> nat \<Rightarrow> byte \<Rightarrow> (size_t \<times> nat \<times> byte) option" where
  "base256_skip p neg char_cnt i c =
     (if 8 < char_cnt then
        (if c \<noteq> neg then None
         else base256_skip p neg (char_cnt - 1) (i + 1) (p ! (i + 1)))
      else Some (char_cnt, i, c))"
  by pat_completeness auto
termination
  by (relation "measure (\<lambda>(p, neg, char_cnt, i, c). unat char_cnt)")
     (auto simp: unat_sub word_le_nat_alt word_less_nat_alt)

text \<open>The second loop, \<open>while (--char_cnt > 0)\<close>, and the final shift after it.\<close>

function base256_accum :: "byte list \<Rightarrow> size_t \<Rightarrow> nat \<Rightarrow> byte \<Rightarrow> 64 word \<Rightarrow> 64 word" where
  "base256_accum p char_cnt i c l =
     (if 0 < char_cnt - 1 then
        base256_accum p (char_cnt - 1) (i + 1) (p ! (i + 1)) (push_bit 8 l OR ucast c)
      else push_bit 8 l OR ucast c)"
  by pat_completeness auto
termination
proof (relation "measure (\<lambda>(p, char_cnt, i, c, l). unat (char_cnt - 1))")
  show "wf (measure (\<lambda>(p, char_cnt, i, c, l). unat (char_cnt - 1)))"
    by simp
next
  fix p :: "byte list" and char_cnt :: size_t and i :: nat and c :: byte and l :: "64 word"
  assume "0 < char_cnt - 1"
  then have "char_cnt - 1 \<noteq> 0"
    by (simp add: word_greater_zero_iff)
  then have "unat (char_cnt - 1 - 1) < unat (char_cnt - 1)"
    using unat_minus_one [of "char_cnt - 1"] unat_gt_0 [of "char_cnt - 1"] by simp
  then show "((p, char_cnt - 1, i + 1, p ! (i + 1), push_bit 8 l OR ucast c), p, char_cnt, i, c, l)
      \<in> measure (\<lambda>(p, char_cnt, i, c, l). unat (char_cnt - 1))"
    by simp
qed

definition parse_base256_impl :: "byte list \<Rightarrow> size_t \<Rightarrow> int64_t" where
  "parse_base256_impl p char_cnt =
     (let c = p ! 0;
          neg = (if c AND 0x40 \<noteq> 0 then 0xFF else 0 :: byte);
          c = (if c AND 0x40 \<noteq> 0 then c OR 0x80 else c AND 0x7F);
          l = (if neg \<noteq> 0 then NOT 0 else 0 :: 64 word)
      in case base256_skip p neg char_cnt 0 c of
           None \<Rightarrow> (if neg \<noteq> 0 then INT64_MIN else INT64_MAX)
         | Some (char_cnt, i, c) \<Rightarrow>
             if (c XOR neg) AND 0x80 \<noteq> 0 then (if neg \<noteq> 0 then INT64_MIN else INT64_MAX)
             else base256_accum p char_cnt i c l)"

text \<open>
  The loop of \<open>parse_octal_impl\<close>.  The index never passes \<open>n\<close>, so it is a natural number;
  the result is a \<open>size_t\<close> and wraps.
\<close>

function parse_octal_loop :: "byte list \<Rightarrow> nat \<Rightarrow> nat \<Rightarrow> size_t \<Rightarrow> size_t" where
  "parse_octal_loop p n i result =
     (if i < n \<and> p ! i \<noteq> 0 then
        parse_octal_loop p n (i + 1)
          (if 0x30 \<le> p ! i \<and> p ! i \<le> 0x37 then push_bit 3 result + ucast (p ! i - 0x30)
           else result)
      else result)"
  by pat_completeness auto
termination
  by (relation "measure (\<lambda>(p, n, i, result). n - i)") auto

definition parse_octal_impl :: "byte list \<Rightarrow> nat \<Rightarrow> size_t" where
  "parse_octal_impl p n = parse_octal_loop p n 0 0"

definition parse_file_size_impl :: "byte list \<Rightarrow> size_t" where
  "parse_file_size_impl tar =
     (if (TarHeader_size tar ! 0) AND 0x80 \<noteq> 0
      then parse_base256_impl (TarHeader_size tar) 12
      else parse_octal_impl (TarHeader_size tar) 12)"

definition extract_file_name_impl :: "byte list \<Rightarrow> byte list" where
  "extract_file_name_impl tar = takeWhile (\<lambda>b. b \<noteq> 0) (TarHeader_name tar)"

definition is_regular_file :: "byte list \<Rightarrow> bool" where
  "is_regular_file tar \<longleftrightarrow> TarHeader_typeflag tar ! 0 = 0x30 \<or> TarHeader_typeflag tar ! 0 = 0"

section \<open>The streaming decoder\<close>

text \<open>
  One pass through the body of the \<open>while\<close> loop of \<open>BaseTarFilterImpl::filter\<close> ends in one
  of three ways: \<open>ReturnFalse d k\<close> is \<open>return false\<close> after \<open>k\<close> source bytes were consumed,
  \<open>Break d k w\<close> is \<open>break\<close> out of the \<open>switch\<close> after \<open>k\<close> source bytes were consumed and the
  bytes \<open>w\<close> were written to the destination, and \<open>Fault\<close> is a \<open>memcpy\<close> that would
  write past the end of the header buffer (undefined behaviour in the source; it needs a
  decoder whose public counter \<open>header_bytes_read\<close> was set beyond 512 from outside).

  The source range is the list \<open>src\<close> of the bytes from \<open>src_begin\<close> up to \<open>src_end\<close>, and
  the destination range is given by its length \<open>dest_end - dest_begin\<close>.  Both pointer
  differences are lengths of real buffers, so their casts to \<open>size_t\<close> are exact and
  \<open>std::min\<close> against them is taken on natural numbers; the counters of the decoder
  themselves stay 64-bit words.
\<close>

datatype step = Fault | ReturnFalse BaseTarFilterImpl nat | Break BaseTarFilterImpl nat "byte list"

text \<open>Lines 205 to 218: the header buffer is complete and is not a zero block.\<close>

definition filter_header_complete :: "BaseTarFilterImpl \<Rightarrow> BaseTarFilterImpl" where
  "filter_header_complete d0 =
     (let tar = header_buffer d0;
          d = d0\<lparr>file_size := parse_file_size_impl tar\<rparr>;
          d = d\<lparr>current_file_name := extract_file_name_impl tar\<rparr>;
          d = d\<lparr>file_bytes_read := 0\<rparr>;
          d = d\<lparr>padding_bytes := (512 - (file_size d mod 512)) mod 512\<rparr>;
          d = d\<lparr>padding_bytes_skipped := 0\<rparr>;
          d = (if is_regular_file tar then d\<lparr>state := ReadFileData\<rparr>
               else d\<lparr>state := SkipPadding, file_size := 0\<rparr>)
      in d\<lparr>header_bytes_read := 0\<rparr>)"

text \<open>
  \<open>std::vector::resize\<close> keeps the first \<open>n\<close> elements and appends zero bytes up to length
  \<open>n\<close>.  \<open>std::memcpy\<close> into a buffer at an offset is defined only when the copied bytes
  fit inside the buffer.
\<close>

definition resize :: "byte list \<Rightarrow> nat \<Rightarrow> byte list" where
  "resize v n = take n v @ replicate (n - length v) 0"

definition memcpy :: "byte list \<Rightarrow> nat \<Rightarrow> byte list \<Rightarrow> byte list option" where
  "memcpy buf off bs =
     (if off + length bs \<le> length buf
      then Some (take off buf @ bs @ drop (off + length bs) buf) else None)"

definition filter_ReadHeader :: "BaseTarFilterImpl \<Rightarrow> byte list \<Rightarrow> step" where
  "filter_ReadHeader d src =
     (let needed = 512 - header_bytes_read d;
          available = length src;
          to_copy = min (unat needed) available;
          d = (if length (header_buffer d) < 512
               then d\<lparr>header_buffer := resize (header_buffer d) 512\<rparr> else d)
      in case memcpy (header_buffer d) (unat (header_bytes_read d)) (take to_copy src) of
           None \<Rightarrow> Fault
         | Some hb \<Rightarrow>
             let d = d\<lparr>header_buffer := hb\<rparr>;
                 d = d\<lparr>header_bytes_read := header_bytes_read d + of_nat to_copy\<rparr>
             in if header_bytes_read d = 512 then
                  (if is_zero_block_impl (header_buffer d)
                   then ReturnFalse (d\<lparr>state := Done\<rparr>) to_copy
                   else Break (filter_header_complete d) to_copy [])
                else Break d to_copy [])"

definition filter_ReadFileData :: "BaseTarFilterImpl \<Rightarrow> byte list \<Rightarrow> nat \<Rightarrow> step" where
  "filter_ReadFileData d src n =
     (let remaining = file_size d - file_bytes_read d;
          src_avail = length src;
          dest_space = n;
          to_copy = min (unat remaining) (min src_avail dest_space);
          d = d\<lparr>file_bytes_read := file_bytes_read d + of_nat to_copy\<rparr>;
          d = (if file_bytes_read d = file_size d then d\<lparr>state := SkipPadding\<rparr> else d)
      in Break d to_copy (take to_copy src))"

definition filter_SkipPadding :: "BaseTarFilterImpl \<Rightarrow> byte list \<Rightarrow> step" where
  "filter_SkipPadding d src =
     (let remaining = padding_bytes d - padding_bytes_skipped d;
          src_avail = length src;
          to_skip = min (unat remaining) src_avail;
          d = d\<lparr>padding_bytes_skipped := padding_bytes_skipped d + of_nat to_skip\<rparr>;
          d = (if padding_bytes_skipped d = padding_bytes d then d\<lparr>state := ReadHeader\<rparr> else d)
      in Break d to_skip [])"

definition filter_step :: "BaseTarFilterImpl \<Rightarrow> byte list \<Rightarrow> nat \<Rightarrow> step" where
  "filter_step d src n =
     (case state d of
        ReadHeader \<Rightarrow> filter_ReadHeader d src
      | ReadFileData \<Rightarrow> filter_ReadFileData d src n
      | SkipPadding \<Rightarrow> filter_SkipPadding d src
      | Done \<Rightarrow> ReturnFalse d 0)"

text \<open>
  The loop terminates because a pass that consumes nothing moves the state forward in the
  cycle file data, padding, header, and a header pass with fewer than 512 buffered bytes
  always consumes.
\<close>

definition filter_rank :: "BaseTarFilterImpl \<Rightarrow> nat" where
  "filter_rank d =
     (if header_bytes_read d = 512 then 3 else 0) +
     (case state d of ReadFileData \<Rightarrow> 2 | SkipPadding \<Rightarrow> 1 | ReadHeader \<Rightarrow> 0 | Done \<Rightarrow> 0)"

lemma filter_step_decreases:
  assumes "filter_step d src n = Break d' k w" and "src \<noteq> []" and "0 < n"
  shows "(0 < k \<and> k \<le> length src) \<or> (k = 0 \<and> filter_rank d' < filter_rank d)"
proof (cases "state d")
  case ReadHeader
  show ?thesis
  proof (cases "header_bytes_read d = 512")
    case True
    with ReadHeader assms show ?thesis
      by (auto simp: filter_step_def filter_ReadHeader_def filter_header_complete_def
          filter_rank_def Let_def split: if_splits option.splits)
  next
    case False
    then have "512 - header_bytes_read d \<noteq> 0"
      by simp
    then have "0 < unat (512 - header_bytes_read d)"
      by (simp add: unat_gt_0)
    with ReadHeader assms show ?thesis
      by (auto simp: filter_step_def filter_ReadHeader_def Let_def split: if_splits option.splits)
  qed
next
  case ReadFileData
  show ?thesis
  proof (cases "file_size d - file_bytes_read d = 0")
    case True
    with ReadFileData assms show ?thesis
      by (auto simp: filter_step_def filter_ReadFileData_def filter_rank_def Let_def
          split: if_splits)
  next
    case False
    then have "0 < unat (file_size d - file_bytes_read d)"
      by (simp add: unat_gt_0)
    with ReadFileData assms show ?thesis
      by (auto simp: filter_step_def filter_ReadFileData_def Let_def split: if_splits)
  qed
next
  case SkipPadding
  show ?thesis
  proof (cases "padding_bytes d - padding_bytes_skipped d = 0")
    case True
    with SkipPadding assms show ?thesis
      by (auto simp: filter_step_def filter_SkipPadding_def filter_rank_def Let_def
          split: if_splits)
  next
    case False
    then have "0 < unat (padding_bytes d - padding_bytes_skipped d)"
      by (simp add: unat_gt_0)
    with SkipPadding assms show ?thesis
      by (auto simp: filter_step_def filter_SkipPadding_def Let_def split: if_splits)
  qed
next
  case Done
  with assms show ?thesis
    by (simp add: filter_step_def)
qed

text \<open>
  \<open>BaseTarFilterImpl::filter\<close>.  The result is the decoder after the call, the unconsumed
  rest of the source range (so \<open>src_begin\<close> advanced by the length of what is missing), the
  bytes written (so \<open>dest_begin\<close> advanced by their number) and the returned flag; \<open>None\<close>
  is undefined behaviour.  The name is suffixed because \<open>filter\<close> is the list function.
\<close>

function filter_impl ::
  "BaseTarFilterImpl \<Rightarrow> byte list \<Rightarrow> nat \<Rightarrow> (BaseTarFilterImpl \<times> byte list \<times> byte list \<times> bool) option" where
  "filter_impl d src n =
     (if src \<noteq> [] \<and> 0 < n then
        (case filter_step d src n of
           Fault \<Rightarrow> None
         | ReturnFalse d' k \<Rightarrow> Some (d', drop k src, [], False)
         | Break d' k w \<Rightarrow>
             (case filter_impl d' (drop k src) (n - length w) of
                None \<Rightarrow> None
              | Some (d'', src', out, r) \<Rightarrow> Some (d'', src', w @ out, r)))
      else Some (d, src, [], True))"
  by pat_completeness auto
termination
proof (relation "measures [\<lambda>(d, src, n). length src, \<lambda>(d, src, n). filter_rank d]")
  show "wf (measures [\<lambda>(d, src, n). length src, \<lambda>(d, src, n). filter_rank d])"
    by simp
next
  fix d d' :: BaseTarFilterImpl and src w :: "byte list" and n k :: nat
  assume "src \<noteq> [] \<and> 0 < n" and "filter_step d src n = Break d' k w"
  then have "(0 < k \<and> k \<le> length src) \<or> (k = 0 \<and> filter_rank d' < filter_rank d)"
    using filter_step_decreases by blast
  moreover have "src \<noteq> []"
    by (simp add: \<open>src \<noteq> [] \<and> 0 < n\<close>)
  ultimately show "((d', drop k src, n - length w), d, src, n)
      \<in> measures [\<lambda>(d, src, n). length src, \<lambda>(d, src, n). filter_rank d]"
    by auto
qed

text \<open>\<open>BaseTarFilterImpl::close\<close>: the seven assignments of the source, in its order.\<close>

definition close :: "BaseTarFilterImpl \<Rightarrow> BaseTarFilterImpl" where
  "close d =
     d\<lparr>state := ReadHeader, header_bytes_read := 0, file_bytes_read := 0,
       padding_bytes_skipped := 0, file_size := 0, header_buffer := [],
       current_file_name := []\<rparr>"

declare filter_impl.simps [simp del] parse_octal_loop.simps [simp del]
  base256_skip.simps [simp del] base256_accum.simps [simp del]

section \<open>The octal parser\<close>

text \<open>
  The octal parse in the words of the specification: one accumulation step takes a byte in
  \<open>'0'..'7'\<close> as a base-8 digit and leaves the value alone on any other byte; the scan runs
  over the first \<open>n\<close> bytes of the field, up to the first NUL.
\<close>

definition octal_accum :: "size_t \<Rightarrow> byte \<Rightarrow> size_t" where
  "octal_accum result c =
     (if 0x30 \<le> c \<and> c \<le> 0x37 then result * 8 + ucast (c - 0x30) else result)"

definition octal_scan_spec :: "byte list \<Rightarrow> nat \<Rightarrow> size_t" where
  "octal_scan_spec p n = foldl octal_accum 0 (takeWhile (\<lambda>c. c \<noteq> 0) (take n p))"

lemma parse_octal_loop_foldl:
  "i \<le> n \<Longrightarrow> n \<le> length p \<Longrightarrow>
   parse_octal_loop p n i r =
     foldl octal_accum r (takeWhile (\<lambda>c. c \<noteq> 0) (drop i (take n p)))"
proof (induction p n i r rule: parse_octal_loop.induct)
  case (1 p n i result)
  show ?case
  proof (cases "i < n \<and> p ! i \<noteq> 0")
    case True
    then have d: "drop i (take n p) = p ! i # drop (i + 1) (take n p)"
      using "1.prems"(2) Cons_nth_drop_Suc [of i "take n p"] by simp
    have acc: "(if 0x30 \<le> p ! i \<and> p ! i \<le> 0x37 then push_bit 3 result + ucast (p ! i - 0x30)
        else result) = octal_accum result (p ! i)"
      by (simp add: octal_accum_def push_bit_eq_mult)
    have "i + 1 \<le> n"
      using True by simp
    from "1.IH" [OF True this "1.prems"(2)]
    have ih: "parse_octal_loop p n (i + 1) (octal_accum result (p ! i)) =
        foldl octal_accum (octal_accum result (p ! i))
          (takeWhile (\<lambda>c. c \<noteq> 0) (drop (i + 1) (take n p)))"
      unfolding acc .
    have "parse_octal_loop p n i result = parse_octal_loop p n (i + 1) (octal_accum result (p ! i))"
      by (subst parse_octal_loop.simps) (simp only: True acc simp_thms if_True)
    also note ih
    finally show ?thesis
      using True d by simp
  next
    case False
    have r: "parse_octal_loop p n i result = result"
      by (subst parse_octal_loop.simps) (simp only: False if_False)
    show ?thesis
    proof (cases "i < n")
      case True
      then have d: "drop i (take n p) = p ! i # drop (i + 1) (take n p)"
        using "1.prems"(2) Cons_nth_drop_Suc [of i "take n p"] by simp
      then show ?thesis
        using r False True by simp
    next
      case False
      then show ?thesis
        using r "1.prems"(1) by simp
    qed
  qed
qed

lemma parse_octal_impl_foldl:
  "n \<le> length p \<Longrightarrow>
   parse_octal_impl p n = foldl octal_accum 0 (takeWhile (\<lambda>c. c \<noteq> 0) (take n p))"
  using parse_octal_loop_foldl [of 0 n p 0] by (simp add: parse_octal_impl_def)

text \<open>
  Claim C9.  On a field of at least \<open>n\<close> bytes the octal parser returns what the scan of
  the specification returns: it looks at no byte beyond the first \<open>n\<close>, stops at the first
  NUL, takes every byte in \<open>'0'..'7'\<close> before it as a base-8 digit (\<open>result * 8 + digit\<close>
  in \<open>size_t\<close> arithmetic), steps over every other byte without changing the value, and
  always returns a value.
\<close>

theorem parse_octal_impl_scan:
  "n \<le> length p \<Longrightarrow> parse_octal_impl p n = octal_scan_spec p n"
  by (simp add: parse_octal_impl_foldl octal_scan_spec_def)

theorem parse_octal_impl_scan_witness:
  "(6::nat) \<le> length [0x20, 0x31, 0x39, 0x37, 0x00, 0x35 :: byte] \<and>
   parse_octal_impl [0x20, 0x31, 0x39, 0x37, 0x00, 0x35] 6 = 15"
  using parse_octal_impl_scan [of 6 "[0x20, 0x31, 0x39, 0x37, 0x00, 0x35]"]
  by (simp add: octal_scan_spec_def octal_accum_def)

section \<open>Calls that do not enter the loop, and the finished decoder\<close>

text \<open>
  Claim C10.  With an empty source range or an empty destination range the call returns
  \<open>true\<close>, consumes and writes nothing and leaves the decoder as it was, in every state
  of the decoder, the finished one included.
\<close>

theorem filter_impl_empty_range:
  "filter_impl d [] n = Some (d, [], [], True) \<and> filter_impl d src 0 = Some (d, src, [], True)"
  by (simp add: filter_impl.simps)

text \<open>
  Claim C5, as amended.  In the state \<open>Done\<close> a call consumes nothing, writes nothing and
  leaves the decoder unchanged; it returns \<open>false\<close> exactly when both ranges are
  non-empty, and \<open>true\<close> when the source range or the destination range is empty.
\<close>

theorem filter_impl_Done:
  "state d = Done \<Longrightarrow> filter_impl d src n = Some (d, src, [], src = [] \<or> n = 0)"
  by (subst filter_impl.simps) (auto simp: filter_step_def)

theorem filter_impl_Done_witness:
  "state (BaseTarFilterImpl_init\<lparr>state := Done\<rparr>) = Done \<and>
   filter_impl (BaseTarFilterImpl_init\<lparr>state := Done\<rparr>) [0x41] 1 =
     Some (BaseTarFilterImpl_init\<lparr>state := Done\<rparr>, [0x41], [], False)"
  using filter_impl_Done [of "BaseTarFilterImpl_init\<lparr>state := Done\<rparr>" "[0x41]" 1]
  by simp

text \<open>
  The claim as stated fails: a finished decoder called with an empty source range
  returns \<open>true\<close>.
\<close>

theorem filter_impl_Done_returns_true:
  "state (BaseTarFilterImpl_init\<lparr>state := Done\<rparr>) = Done \<and>
   filter_impl (BaseTarFilterImpl_init\<lparr>state := Done\<rparr>) [] 1 =
     Some (BaseTarFilterImpl_init\<lparr>state := Done\<rparr>, [], [], True)"
  by (simp add: filter_impl.simps)

section \<open>Unfolding the loop, and the cursors\<close>

lemma filter_impl_Break:
  "src \<noteq> [] \<Longrightarrow> 0 < n \<Longrightarrow> filter_step d src n = Break d' k w \<Longrightarrow>
   filter_impl d src n =
     (case filter_impl d' (drop k src) (n - length w) of
        None \<Rightarrow> None
      | Some (d'', src', out, r) \<Rightarrow> Some (d'', src', w @ out, r))"
  by (subst filter_impl.simps) simp

lemma filter_impl_ReturnFalse:
  "src \<noteq> [] \<Longrightarrow> 0 < n \<Longrightarrow> filter_step d src n = ReturnFalse d' k \<Longrightarrow>
   filter_impl d src n = Some (d', drop k src, [], False)"
  by (subst filter_impl.simps) simp

lemma filter_impl_Fault:
  "src \<noteq> [] \<Longrightarrow> 0 < n \<Longrightarrow> filter_step d src n = Fault \<Longrightarrow> filter_impl d src n = None"
  by (subst filter_impl.simps) simp

lemma filter_impl_exit:
  "src = [] \<or> n = 0 \<Longrightarrow> filter_impl d src n = Some (d, src, [], True)"
  by (subst filter_impl.simps) auto

lemma filter_step_Break_bounds:
  "filter_step d src n = Break d' k w \<Longrightarrow> k \<le> length src \<and> length w \<le> n \<and> length w \<le> k"
  by (cases "state d")
    (auto simp: filter_step_def filter_ReadHeader_def filter_ReadFileData_def
      filter_SkipPadding_def Let_def split: if_splits option.splits)

lemma filter_step_ReturnFalse_bounds:
  "filter_step d src n = ReturnFalse d' k \<Longrightarrow> k \<le> length src"
  by (cases "state d")
    (auto simp: filter_step_def filter_ReadHeader_def filter_ReadFileData_def
      filter_SkipPadding_def Let_def split: if_splits option.splits)

lemma filter_impl_bounds:
  "filter_impl d src n = Some (d', src', out, r) \<Longrightarrow>
   length src' \<le> length src \<and> src' = drop (length src - length src') src \<and> length out \<le> n"
proof (induction d src n arbitrary: d' src' out r rule: filter_impl.induct)
  case (1 d src n)
  show ?case
  proof (cases "src \<noteq> [] \<and> 0 < n")
    case False
    then show ?thesis
      using "1.prems" filter_impl_exit [of src n d] by auto
  next
    case True
    show ?thesis
    proof (cases "filter_step d src n")
      case Fault
      then show ?thesis
        using True "1.prems" by (simp add: filter_impl_Fault)
    next
      case (ReturnFalse d1 k)
      then show ?thesis
        using True "1.prems" filter_step_ReturnFalse_bounds [OF ReturnFalse]
        by (auto simp: filter_impl_ReturnFalse)
    next
      case (Break d1 k w)
      from filter_step_Break_bounds [OF Break]
      have b: "k \<le> length src" "length w \<le> n"
        by simp_all
      from True "1.prems" Break
      obtain out1 where rec: "filter_impl d1 (drop k src) (n - length w) = Some (d', src', out1, r)"
        and out: "out = w @ out1"
        by (auto simp: filter_impl_Break split: option.splits)
      from "1.IH" [OF True Break rec]
      have ih: "length src' \<le> length (drop k src)"
        "src' = drop (length (drop k src) - length src') (drop k src)"
        "length out1 \<le> n - length w"
        by simp_all
      have "length (drop k src) - length src' + k = length src - length src'"
        using ih(1) b(1) by simp
      then have "src' = drop (length src - length src') src"
        using ih(2) by (simp add: add.commute)
      moreover have "length src' \<le> length src"
        using ih(1) by simp
      moreover have "length out \<le> n"
        using ih(3) b(2) out by simp
      ultimately show ?thesis
        by blast
    qed
  qed
qed

section \<open>Counters of the decoder\<close>

lemma of_nat_eq_size_t_iff:
  "k \<le> unat (w :: size_t) \<Longrightarrow> (of_nat k = w) = (k = unat w)"
proof
  assume k: "k \<le> unat w" and e: "of_nat k = w"
  from k have "unat (of_nat k :: size_t) = k"
    by (rule le_unat_uoi)
  with e show "k = unat w"
    by simp
next
  assume "k = unat w"
  then show "of_nat k = w"
    by simp
qed

lemma size_t_add_eq_iff:
  "k \<le> unat (b - a) \<Longrightarrow> (a + of_nat k = (b :: size_t)) = (k = unat (b - a))"
proof -
  assume k: "k \<le> unat (b - a)"
  have "(a + of_nat k = b) = (of_nat k = b - a)"
    by (auto simp: algebra_simps)
  then show ?thesis
    using of_nat_eq_size_t_iff [OF k] by simp
qed

lemma unat_needed:
  "(h :: size_t) < 512 \<Longrightarrow> unat (512 - h) = 512 - unat h \<and> unat h < 512"
  by (simp add: unat_sub word_less_nat_alt word_le_nat_alt)

section \<open>The invariant of the header counter\<close>

text \<open>
  Outside the state \<open>Done\<close> fewer than 512 header bytes are buffered.  The constructor and
  \<open>close\<close> establish this and every pass of the loop keeps it; under it no \<open>memcpy\<close>
  leaves the header buffer.
\<close>

definition filter_inv :: "BaseTarFilterImpl \<Rightarrow> bool" where
  "filter_inv d \<longleftrightarrow> state d = Done \<or> header_bytes_read d < 512"

lemma filter_inv_init: "filter_inv BaseTarFilterImpl_init"
  by (simp add: filter_inv_def BaseTarFilterImpl_init_def)

lemma filter_inv_close: "filter_inv (close d)"
  by (simp add: filter_inv_def close_def)


section \<open>What one pass does in each state\<close>

text \<open>
  \<open>header_fill\<close>, \<open>data_read\<close> and \<open>padding_skip\<close> are the decoder after a pass has consumed
  the given bytes (or that many bytes) in the states \<open>ReadHeader\<close>, \<open>ReadFileData\<close> and
  \<open>SkipPadding\<close>.  A pass over several bytes is the pass over the first byte followed by
  the pass over the others.
\<close>

definition header_fill :: "BaseTarFilterImpl \<Rightarrow> byte list \<Rightarrow> BaseTarFilterImpl" where
  "header_fill d bs =
     (let hb = (if length (header_buffer d) < 512 then resize (header_buffer d) 512
                else header_buffer d);
          off = unat (header_bytes_read d)
      in d\<lparr>header_buffer := take off hb @ bs @ drop (off + length bs) hb,
           header_bytes_read := header_bytes_read d + of_nat (length bs)\<rparr>)"

lemma filter_ReadHeader_eq:
  assumes "header_bytes_read d < 512"
  shows "filter_ReadHeader d src =
    (let k = min (512 - unat (header_bytes_read d)) (length src);
         d1 = header_fill d (take k src)
     in if unat (header_bytes_read d) + k = 512 then
          (if is_zero_block_impl (header_buffer d1) then ReturnFalse (d1\<lparr>state := Done\<rparr>) k
           else Break (filter_header_complete d1) k [])
        else Break d1 k [])"
proof -
  define k where "k = min (512 - unat (header_bytes_read d)) (length src)"
  define d0 where "d0 = (if length (header_buffer d) < 512
    then d\<lparr>header_buffer := resize (header_buffer d) 512\<rparr> else d)"
  from unat_needed [OF assms]
  have u: "unat (512 - header_bytes_read d) = 512 - unat (header_bytes_read d)"
    "unat (header_bytes_read d) < 512"
    by simp_all
  have k': "min (unat (512 - header_bytes_read d)) (length src) = k"
    using u by (simp add: k_def)
  have "k \<le> unat (512 - header_bytes_read d)"
    using u by (simp add: k_def)
  then have "(header_bytes_read d + of_nat k = 512) = (k = unat (512 - header_bytes_read d))"
    by (rule size_t_add_eq_iff)
  then have e: "(header_bytes_read d + of_nat k = 512) = (unat (header_bytes_read d) + k = 512)"
    using u by (auto simp: k_def)
  define cs where "cs = take k src"
  have lk: "length cs = k"
    by (simp add: k_def cs_def)
  have fit: "unat (header_bytes_read d) + k \<le> length (header_buffer d0)"
    using u by (auto simp: k_def d0_def resize_def)
  have hbr0: "header_bytes_read d0 = header_bytes_read d"
    by (simp add: d0_def)
  have m: "memcpy (header_buffer d0) (unat (header_bytes_read d0)) cs =
      Some (header_buffer (header_fill d cs))"
    using fit by (auto simp: memcpy_def lk hbr0 header_fill_def d0_def Let_def)
  have f: "d0\<lparr>header_buffer := header_buffer (header_fill d cs),
      header_bytes_read := header_bytes_read d + of_nat k\<rparr> = header_fill d cs"
    by (simp add: header_fill_def d0_def Let_def lk)
  have "filter_ReadHeader d src =
    (case memcpy (header_buffer d0) (unat (header_bytes_read d0)) cs of
       None \<Rightarrow> Fault
     | Some hb \<Rightarrow>
         let d = d0\<lparr>header_buffer := hb\<rparr>;
             d = d\<lparr>header_bytes_read := header_bytes_read d + of_nat k\<rparr>
         in if header_bytes_read d = 512 then
              (if is_zero_block_impl (header_buffer d)
               then ReturnFalse (d\<lparr>state := Done\<rparr>) k
               else Break (filter_header_complete d) k [])
            else Break d k [])"
    unfolding filter_ReadHeader_def Let_def k' d0_def cs_def by simp
  also have "\<dots> =
    (let d1 = header_fill d cs
     in if unat (header_bytes_read d) + k = 512 then
          (if is_zero_block_impl (header_buffer d1) then ReturnFalse (d1\<lparr>state := Done\<rparr>) k
           else Break (filter_header_complete d1) k [])
        else Break d1 k [])"
    unfolding m using e f by (simp add: Let_def hbr0)
  finally show ?thesis
    by (simp add: k_def cs_def Let_def)
qed

section \<open>Splitting a call at its first byte\<close>

definition emit :: "byte list \<Rightarrow> (BaseTarFilterImpl \<times> byte list \<times> byte list \<times> bool) option \<Rightarrow>
    (BaseTarFilterImpl \<times> byte list \<times> byte list \<times> bool) option" where
  "emit w res = (case res of None \<Rightarrow> None | Some (d, src, out, r) \<Rightarrow> Some (d, src, w @ out, r))"

lemma emit_simps [simp]:
  "emit w None = None"
  "emit w (Some (d, src, out, r)) = Some (d, src, w @ out, r)"
  "emit [] res = res"
  "emit w (emit v res) = emit (w @ v) res"
  by (auto simp: emit_def split: option.splits)

lemma filter_impl_Break_emit:
  "src \<noteq> [] \<Longrightarrow> 0 < n \<Longrightarrow> filter_step d src n = Break d' k w \<Longrightarrow>
   filter_impl d src n = emit w (filter_impl d' (drop k src) (n - length w))"
  by (simp add: filter_impl_Break emit_def)

lemma unat_size_t_pred:
  "(w :: size_t) \<noteq> 0 \<Longrightarrow> unat (w - 1) = unat w - 1 \<and> 0 < unat w"
  by (simp add: unat_minus_one unat_gt_0)

definition data_read :: "BaseTarFilterImpl \<Rightarrow> nat \<Rightarrow> BaseTarFilterImpl" where
  "data_read d k =
     (let e = d\<lparr>file_bytes_read := file_bytes_read d + of_nat k\<rparr>
      in if file_bytes_read e = file_size e then e\<lparr>state := SkipPadding\<rparr> else e)"

lemma filter_ReadFileData_eq:
  "k = min (unat (file_size d - file_bytes_read d)) (min (length src) n) \<Longrightarrow>
   filter_ReadFileData d src n = Break (data_read d k) k (take k src)"
  by (simp add: filter_ReadFileData_def data_read_def Let_def)

lemma data_read_Suc:
  assumes "Suc j \<le> unat (file_size d - file_bytes_read d)" and "0 < j"
  shows "data_read (data_read d (Suc 0)) j = data_read d (Suc j)"
    and "data_read d (Suc 0) = d\<lparr>file_bytes_read := file_bytes_read d + 1\<rparr>"
    and "unat (file_size (data_read d (Suc 0)) - file_bytes_read (data_read d (Suc 0))) =
      unat (file_size d - file_bytes_read d) - Suc 0"
proof -
  have nz: "file_size d - file_bytes_read d \<noteq> 0"
    using assms by auto
  have ne: "file_bytes_read d + 1 \<noteq> file_size d"
  proof
    assume "file_bytes_read d + 1 = file_size d"
    then have "file_size d - file_bytes_read d = 1"
      by (simp add: algebra_simps)
    then show False
      using assms by simp
  qed
  then show d1: "data_read d (Suc 0) = d\<lparr>file_bytes_read := file_bytes_read d + 1\<rparr>"
    by (simp add: data_read_def Let_def)
  show "data_read (data_read d (Suc 0)) j = data_read d (Suc j)"
    unfolding d1 by (simp add: data_read_def Let_def add.assoc)
  show "unat (file_size (data_read d (Suc 0)) - file_bytes_read (data_read d (Suc 0))) =
      unat (file_size d - file_bytes_read d) - Suc 0"
    unfolding d1 using unat_size_t_pred [OF nz] by (simp add: diff_diff_eq)
qed

lemma filter_ReadFileData_first:
  assumes "file_size d \<noteq> file_bytes_read d" and "0 < n" and "state d = ReadFileData"
  shows "\<exists>d1. filter_ReadFileData d [b] (Suc 0) = Break d1 (Suc 0) [b] \<and>
      header_bytes_read d1 = header_bytes_read d \<and> state d1 \<noteq> Done \<and>
      (filter_ReadFileData d (b # cs) n = Break d1 (Suc 0) [b] \<or>
       (cs \<noteq> [] \<and> Suc 0 < n \<and> state d1 = state d \<and>
        (\<exists>d' k. filter_ReadFileData d (b # cs) n = Break d' (Suc k) (b # take k cs) \<and>
           filter_ReadFileData d1 cs (n - Suc 0) = Break d' k (take k cs))))"
proof -
  define rem where "rem = unat (file_size d - file_bytes_read d)"
  have nz: "file_size d - file_bytes_read d \<noteq> 0"
    using assms(1) by simp
  from unat_size_t_pred [OF nz]
  have rem: "0 < rem"
    by (simp add: rem_def)
  have "Suc 0 = min (unat (file_size d - file_bytes_read d)) (min (length [b]) (Suc 0))"
    using rem by (simp add: rem_def)
  from filter_ReadFileData_eq [OF this]
  have one: "filter_ReadFileData d [b] (Suc 0) = Break (data_read d (Suc 0)) (Suc 0) [b]"
    by simp
  have props: "header_bytes_read (data_read d (Suc 0)) = header_bytes_read d"
    "state (data_read d (Suc 0)) \<noteq> Done"
    using assms(3) by (simp_all add: data_read_def Let_def)
  define k where "k = min rem (min (length (b # cs)) n)"
  have kpos: "0 < k"
    using rem assms(2) by (simp add: k_def)
  have big: "filter_ReadFileData d (b # cs) n = Break (data_read d k) k (take k (b # cs))"
    by (rule filter_ReadFileData_eq) (simp add: k_def rem_def)
  show ?thesis
  proof (cases "k = Suc 0")
    case True
    then have "filter_ReadFileData d (b # cs) n = Break (data_read d (Suc 0)) (Suc 0) [b]"
      using big by simp
    with one props show ?thesis
      by blast
  next
    case False
    with kpos obtain j where j: "k = Suc j" "0 < j"
      by (cases k) auto
    then have r1: "Suc j \<le> rem" and cs: "cs \<noteq> []" and n: "Suc 0 < n"
      by (auto simp: k_def)
    note ds = data_read_Suc [OF r1 [unfolded rem_def] j(2)]
    have st: "state (data_read d (Suc 0)) = state d"
      by (simp add: ds(2))
    have "j = min (rem - Suc 0) (min (length cs) (n - Suc 0))"
      using j by (simp add: k_def)
    then have "j = min (unat (file_size (data_read d (Suc 0)) - file_bytes_read (data_read d (Suc 0))))
        (min (length cs) (n - Suc 0))"
      by (simp only: ds(3) rem_def)
    from filter_ReadFileData_eq [OF this]
    have second: "filter_ReadFileData (data_read d (Suc 0)) cs (n - Suc 0) = Break (data_read d k) j (take j cs)"
      by (simp only: ds(1) j)
    have "filter_ReadFileData d (b # cs) n = Break (data_read d k) (Suc j) (b # take j cs)"
      using big by (simp add: j)
    with one props cs n st second show ?thesis
      by blast
  qed
qed

definition padding_skip :: "BaseTarFilterImpl \<Rightarrow> nat \<Rightarrow> BaseTarFilterImpl" where
  "padding_skip d k =
     (let e = d\<lparr>padding_bytes_skipped := padding_bytes_skipped d + of_nat k\<rparr>
      in if padding_bytes_skipped e = padding_bytes e then e\<lparr>state := ReadHeader\<rparr> else e)"

lemma filter_SkipPadding_eq:
  "k = min (unat (padding_bytes d - padding_bytes_skipped d)) (length src) \<Longrightarrow>
   filter_SkipPadding d src = Break (padding_skip d k) k []"
  by (simp add: filter_SkipPadding_def padding_skip_def Let_def)

lemma padding_skip_Suc:
  assumes "Suc j \<le> unat (padding_bytes d - padding_bytes_skipped d)" and "0 < j"
  shows "padding_skip (padding_skip d (Suc 0)) j = padding_skip d (Suc j)"
    and "padding_skip d (Suc 0) = d\<lparr>padding_bytes_skipped := padding_bytes_skipped d + 1\<rparr>"
    and "unat (padding_bytes (padding_skip d (Suc 0)) - padding_bytes_skipped (padding_skip d (Suc 0))) =
      unat (padding_bytes d - padding_bytes_skipped d) - Suc 0"
proof -
  have nz: "padding_bytes d - padding_bytes_skipped d \<noteq> 0"
    using assms by auto
  have ne: "padding_bytes_skipped d + 1 \<noteq> padding_bytes d"
  proof
    assume "padding_bytes_skipped d + 1 = padding_bytes d"
    then have "padding_bytes d - padding_bytes_skipped d = 1"
      by (simp add: algebra_simps)
    then show False
      using assms by simp
  qed
  then show d1: "padding_skip d (Suc 0) = d\<lparr>padding_bytes_skipped := padding_bytes_skipped d + 1\<rparr>"
    by (simp add: padding_skip_def Let_def)
  show "padding_skip (padding_skip d (Suc 0)) j = padding_skip d (Suc j)"
    unfolding d1 by (simp add: padding_skip_def Let_def add.assoc)
  show "unat (padding_bytes (padding_skip d (Suc 0)) - padding_bytes_skipped (padding_skip d (Suc 0))) =
      unat (padding_bytes d - padding_bytes_skipped d) - Suc 0"
    unfolding d1 using unat_size_t_pred [OF nz] by (simp add: diff_diff_eq)
qed

lemma filter_SkipPadding_first:
  assumes "padding_bytes d \<noteq> padding_bytes_skipped d" and "state d = SkipPadding"
    and "header_bytes_read d < 512"
  shows "\<exists>d1. filter_SkipPadding d [b] = Break d1 (Suc 0) [] \<and>
      header_bytes_read d1 < 512 \<and>
      (filter_SkipPadding d (b # cs) = Break d1 (Suc 0) [] \<or>
       (cs \<noteq> [] \<and>
        (\<exists>d' k. filter_SkipPadding d (b # cs) = Break d' (Suc k) [] \<and>
           state d1 = SkipPadding \<and> filter_SkipPadding d1 cs = Break d' k [])))"
proof -
  define rem where "rem = unat (padding_bytes d - padding_bytes_skipped d)"
  have nz: "padding_bytes d - padding_bytes_skipped d \<noteq> 0"
    using assms(1) by simp
  from unat_size_t_pred [OF nz]
  have rem: "0 < rem"
    by (simp add: rem_def)
  have "Suc 0 = min (unat (padding_bytes d - padding_bytes_skipped d)) (length [b])"
    using rem by (simp add: rem_def)
  from filter_SkipPadding_eq [OF this]
  have one: "filter_SkipPadding d [b] = Break (padding_skip d (Suc 0)) (Suc 0) []" .
  have props: "header_bytes_read (padding_skip d (Suc 0)) < 512"
    using assms(3) by (simp_all add: padding_skip_def Let_def)
  define k where "k = min rem (length (b # cs))"
  have kpos: "0 < k"
    using rem by (simp add: k_def)
  have big: "filter_SkipPadding d (b # cs) = Break (padding_skip d k) k []"
    by (rule filter_SkipPadding_eq) (simp add: k_def rem_def)
  show ?thesis
  proof (cases "k = Suc 0")
    case True
    then have "filter_SkipPadding d (b # cs) = Break (padding_skip d (Suc 0)) (Suc 0) []"
      using big by simp
    with one props show ?thesis
      by blast
  next
    case False
    with kpos obtain j where j: "k = Suc j" "0 < j"
      by (cases k) auto
    then have r1: "Suc j \<le> rem" and cs: "cs \<noteq> []"
      by (auto simp: k_def)
    note ds = padding_skip_Suc [OF r1 [unfolded rem_def] j(2)]
    have st: "state (padding_skip d (Suc 0)) = SkipPadding"
      using assms(2) by (simp add: ds(2))
    have "j = min (rem - Suc 0) (length cs)"
      using j by (simp add: k_def)
    then have "j = min (unat (padding_bytes (padding_skip d (Suc 0)) -
        padding_bytes_skipped (padding_skip d (Suc 0)))) (length cs)"
      by (simp only: ds(3) rem_def)
    from filter_SkipPadding_eq [OF this]
    have second: "filter_SkipPadding (padding_skip d (Suc 0)) cs = Break (padding_skip d k) j []"
      by (simp only: ds(1) j)
    have "filter_SkipPadding d (b # cs) = Break (padding_skip d k) (Suc j) []"
      using big by (simp add: j)
    with one props cs st second show ?thesis
      by blast
  qed
qed

lemma header_fill_fields [simp]:
  "state (header_fill d bs) = state d"
  "file_size (header_fill d bs) = file_size d"
  "file_bytes_read (header_fill d bs) = file_bytes_read d"
  "padding_bytes (header_fill d bs) = padding_bytes d"
  "padding_bytes_skipped (header_fill d bs) = padding_bytes_skipped d"
  "current_file_name (header_fill d bs) = current_file_name d"
  "header_bytes_read (header_fill d bs) = header_bytes_read d + of_nat (length bs)"
  by (simp_all add: header_fill_def Let_def)

lemma unat_header_fill:
  assumes "unat (header_bytes_read d) + length bs \<le> 512"
  shows "unat (header_bytes_read (header_fill d bs)) = unat (header_bytes_read d) + length bs"
proof -
  have "unat (of_nat (length bs) :: size_t) = length bs"
    using assms by (simp add: unat_of_nat)
  then show ?thesis
    using assms by (simp add: unat_word_ariths)
qed

lemma header_fill_Cons:
  assumes "unat (header_bytes_read d) + Suc (length bs) \<le> 512"
  shows "header_fill (header_fill d [b]) bs = header_fill d (b # bs)"
proof -
  define hb where "hb = (if length (header_buffer d) < 512 then resize (header_buffer d) 512
    else header_buffer d)"
  define off where "off = unat (header_bytes_read d)"
  have len: "512 \<le> length hb"
    by (simp add: hb_def resize_def)
  have off: "off + Suc (length bs) \<le> length hb"
    using assms len by (simp add: off_def)
  have f1: "header_fill d [b] = d\<lparr>header_buffer := take off hb @ [b] @ drop (off + 1) hb,
      header_bytes_read := header_bytes_read d + 1\<rparr>"
    by (simp add: header_fill_def Let_def hb_def off_def)
  have u1: "unat (header_bytes_read d + 1) = off + 1"
    using unat_header_fill [of d "[b]"] assms by (simp add: off_def)
  have l1: "\<not> length (take off hb @ [b] @ drop (off + 1) hb) < 512"
    using off len by simp
  have "header_fill (header_fill d [b]) bs =
      d\<lparr>header_buffer := take (off + 1) (take off hb @ [b] @ drop (off + 1) hb) @ bs @
          drop (off + 1 + length bs) (take off hb @ [b] @ drop (off + 1) hb),
        header_bytes_read := header_bytes_read d + 1 + of_nat (length bs)\<rparr>"
    unfolding f1 using l1 u1 by (simp add: header_fill_def Let_def)
  moreover have "take (off + 1) (take off hb @ [b] @ drop (off + 1) hb) = take off hb @ [b]"
    using off by simp
  moreover have "drop (off + 1 + length bs) (take off hb @ [b] @ drop (off + 1) hb) =
      drop (off + Suc (length bs)) hb"
    using off by (simp add: add.commute)
  moreover have "header_fill d (b # bs) =
      d\<lparr>header_buffer := take off hb @ (b # bs) @ drop (off + Suc (length bs)) hb,
        header_bytes_read := header_bytes_read d + of_nat (Suc (length bs))\<rparr>"
    by (simp add: header_fill_def Let_def hb_def off_def)
  ultimately show ?thesis
    by (simp add: add.assoc)
qed

definition header_result :: "BaseTarFilterImpl \<Rightarrow> byte list \<Rightarrow> nat \<Rightarrow> step" where
  "header_result d bs k =
     (let d1 = header_fill d bs
      in if unat (header_bytes_read d) + length bs = 512 then
           (if is_zero_block_impl (header_buffer d1) then ReturnFalse (d1\<lparr>state := Done\<rparr>) k
            else Break (filter_header_complete d1) k [])
         else Break d1 k [])"

lemma filter_ReadHeader_result:
  assumes "header_bytes_read d < 512"
    and "k = min (512 - unat (header_bytes_read d)) (length src)"
  shows "filter_ReadHeader d src = header_result d (take k src) k"
proof -
  have "length (take k src) = k"
    using assms(2) by simp
  then show ?thesis
    unfolding filter_ReadHeader_eq [OF assms(1)] header_result_def Let_def assms(2) [symmetric]
    by simp
qed

lemma header_result_Cons:
  assumes "unat (header_bytes_read d) + Suc (length bs) \<le> 512" and "bs \<noteq> []"
  shows "header_result (header_fill d [b]) bs k = header_result d (b # bs) k"
proof -
  have "unat (header_bytes_read d) + length [b] \<le> 512"
    using assms(1) by simp
  from unat_header_fill [OF this]
  have u: "unat (header_bytes_read (header_fill d [b])) = Suc (unat (header_bytes_read d))"
    by simp
  show ?thesis
    unfolding header_result_def Let_def header_fill_Cons [OF assms(1)] u by simp
qed

lemma filter_ReadHeader_first:
  assumes "header_bytes_read d < 512" and "state d = ReadHeader"
  shows "(\<exists>d1. filter_ReadHeader d [b] = ReturnFalse d1 (Suc 0) \<and>
            filter_ReadHeader d (b # cs) = ReturnFalse d1 (Suc 0) \<and> state d1 = Done) \<or>
         (\<exists>d1. filter_ReadHeader d [b] = Break d1 (Suc 0) [] \<and>
            header_bytes_read d1 < 512 \<and> state d1 \<noteq> Done \<and>
            (filter_ReadHeader d (b # cs) = Break d1 (Suc 0) [] \<or>
             (cs \<noteq> [] \<and> state d1 = ReadHeader \<and>
              ((\<exists>d' k. filter_ReadHeader d (b # cs) = Break d' (Suc k) [] \<and>
                   filter_ReadHeader d1 cs = Break d' k []) \<or>
               (\<exists>d' k. filter_ReadHeader d (b # cs) = ReturnFalse d' (Suc k) \<and>
                   filter_ReadHeader d1 cs = ReturnFalse d' k)))))"
proof -
  define h where "h = unat (header_bytes_read d)"
  have h: "h < 512"
    using unat_needed [OF assms(1)] by (simp add: h_def)
  have "Suc 0 = min (512 - unat (header_bytes_read d)) (length [b])"
    using h by (simp add: h_def)
  from filter_ReadHeader_result [OF assms(1) this]
  have one: "filter_ReadHeader d [b] = header_result d [b] (Suc 0)"
    by simp
  define k where "k = min (512 - h) (length (b # cs))"
  have kpos: "0 < k"
    using h by (simp add: k_def)
  have big: "filter_ReadHeader d (b # cs) = header_result d (take k (b # cs)) k"
    by (rule filter_ReadHeader_result [OF assms(1)]) (simp add: k_def h_def)
  show ?thesis
  proof (cases "k = Suc 0")
    case True
    then have same: "filter_ReadHeader d (b # cs) = header_result d [b] (Suc 0)"
      using big by simp
    show ?thesis
    proof (cases "h + 1 = 512")
      case True
      show ?thesis
      proof (cases "is_zero_block_impl (header_buffer (header_fill d [b]))")
        case z: True
        then show ?thesis
          using one same True by (simp add: header_result_def Let_def h_def)
      next
        case z: False
        then show ?thesis
          using one same True by (simp add: header_result_def Let_def h_def
              filter_header_complete_def)
      qed
    next
      case False
      then have lt: "h + 1 < 512"
        using h by simp
      have "unat (header_bytes_read (header_fill d [b])) = h + 1"
        using unat_header_fill [of d "[b]"] h by (simp add: h_def)
      then have "header_bytes_read (header_fill d [b]) < 512"
        using lt by (simp add: word_less_nat_alt del: header_fill_fields)
      then show ?thesis
        using one same False assms(2) by (simp add: header_result_def Let_def h_def)
    qed
  next
    case False
    with kpos obtain j where j: "k = Suc j" "0 < j"
      by (cases k) auto
    then have hj: "h + Suc j \<le> 512" and cs: "cs \<noteq> []" and jl: "j \<le> length cs"
      by (auto simp: k_def)
    have lt: "h + 1 < 512"
      using hj j(2) by simp
    have u1: "unat (header_bytes_read (header_fill d [b])) = h + 1"
      using unat_header_fill [of d "[b]"] h by (simp add: h_def)
    then have inv1: "header_bytes_read (header_fill d [b]) < 512"
      using lt by (simp add: word_less_nat_alt del: header_fill_fields)
    have single: "filter_ReadHeader d [b] = Break (header_fill d [b]) (Suc 0) []"
      using one lt by (simp add: header_result_def Let_def h_def)
    have "j = min (512 - unat (header_bytes_read (header_fill d [b]))) (length cs)"
      unfolding u1 using j by (simp add: k_def)
    from filter_ReadHeader_result [OF inv1 this]
    have "filter_ReadHeader (header_fill d [b]) cs = header_result (header_fill d [b]) (take j cs) j" .
    moreover have "header_result (header_fill d [b]) (take j cs) j = header_result d (b # take j cs) j"
      by (rule header_result_Cons) (use hj j(2) jl cs in \<open>auto simp: h_def\<close>)
    ultimately have second: "filter_ReadHeader (header_fill d [b]) cs = header_result d (b # take j cs) j"
      by simp
    have big': "filter_ReadHeader d (b # cs) = header_result d (b # take j cs) (Suc j)"
      using big by (simp add: j)
    have st: "state (header_fill d [b]) = ReadHeader" "state (header_fill d [b]) \<noteq> Done"
      using assms(2) by simp_all
    have "(\<exists>d' k. header_result d (b # take j cs) (Suc j) = Break d' (Suc k) [] \<and>
              header_result d (b # take j cs) j = Break d' k []) \<or>
          (\<exists>d' k. header_result d (b # take j cs) (Suc j) = ReturnFalse d' (Suc k) \<and>
              header_result d (b # take j cs) j = ReturnFalse d' k)"
      by (simp add: header_result_def Let_def)
    with single inv1 cs st big' second show ?thesis
      by (simp del: header_fill_fields) 
  qed
qed

lemma single_Break:
  "filter_step d [b] (Suc 0) = Break d1 (Suc 0) w1 \<Longrightarrow>
   filter_impl d [b] (Suc 0) = Some (d1, [], w1, True)"
  by (simp add: filter_impl_Break_emit filter_impl_exit)

lemma single_ReturnFalse:
  "filter_step d [b] (Suc 0) = ReturnFalse d1 (Suc 0) \<Longrightarrow>
   filter_impl d [b] (Suc 0) = Some (d1, [], [], False)"
  by (simp add: filter_impl_ReturnFalse)

lemma split_combine_Break:
  assumes "filter_step d (b # cs) n = Break d' (Suc k) (w1 @ w)"
    and "filter_step d1 cs (n - length w1) = Break d' k w"
    and "cs \<noteq> []" and "length w1 < n"
  shows "filter_impl d (b # cs) n = emit w1 (filter_impl d1 cs (n - length w1))"
proof -
  have "filter_impl d (b # cs) n =
      emit (w1 @ w) (filter_impl d' (drop (Suc k) (b # cs)) (n - length (w1 @ w)))"
    using assms(1,4) by (intro filter_impl_Break_emit) auto
  moreover have "filter_impl d1 cs (n - length w1) =
      emit w (filter_impl d' (drop k cs) (n - length w1 - length w))"
    using assms(2,3,4) by (intro filter_impl_Break_emit) auto
  ultimately show ?thesis
    by (simp add: diff_diff_eq)
qed

lemma split_combine_ReturnFalse:
  assumes "filter_step d (b # cs) n = ReturnFalse d' (Suc k)"
    and "filter_step d1 cs n = ReturnFalse d' k"
    and "cs \<noteq> []" and "0 < n"
  shows "filter_impl d (b # cs) n = filter_impl d1 cs n"
  using assms by (simp add: filter_impl_ReturnFalse)

definition first_byte_split :: "BaseTarFilterImpl \<Rightarrow> byte \<Rightarrow> byte list \<Rightarrow> nat \<Rightarrow> bool" where
  "first_byte_split d b cs n \<longleftrightarrow>
     (\<exists>d1 w1. filter_inv d1 \<and>
        ((filter_impl d [b] (Suc 0) = Some (d1, [], [], False) \<and>
          filter_impl d (b # cs) n = Some (d1, cs, [], False)) \<or>
         (filter_impl d [b] (Suc 0) = Some (d1, [], w1, True) \<and>
          filter_impl d (b # cs) n = emit w1 (filter_impl d1 cs (n - length w1)))))"

lemma first_byte_split_ReadFileData:
  assumes "state d = ReadFileData" and "file_size d \<noteq> file_bytes_read d" and "0 < n"
    and "filter_inv d"
  shows "first_byte_split d b cs n"
proof -
  have step: "filter_step d src m = filter_ReadFileData d src m" for src m
    using assms(1) by (simp add: filter_step_def)
  from filter_ReadFileData_first [OF assms(2,3,1), of b cs]
  obtain d1 where one: "filter_step d [b] (Suc 0) = Break d1 (Suc 0) [b]"
    and h1: "header_bytes_read d1 = header_bytes_read d" and nd: "state d1 \<noteq> Done"
    and alt: "filter_step d (b # cs) n = Break d1 (Suc 0) [b] \<or>
       (cs \<noteq> [] \<and> Suc 0 < n \<and> state d1 = state d \<and>
        (\<exists>d' k. filter_step d (b # cs) n = Break d' (Suc k) (b # take k cs) \<and>
           filter_ReadFileData d1 cs (n - Suc 0) = Break d' k (take k cs)))"
    unfolding step by blast
  have inv1: "filter_inv d1"
    using assms(1,4) h1 by (simp add: filter_inv_def)
  have single: "filter_impl d [b] (Suc 0) = Some (d1, [], [b], True)"
    using one by (rule single_Break)
  from alt have "filter_impl d (b # cs) n = emit [b] (filter_impl d1 cs (n - length [b]))"
  proof
    assume "filter_step d (b # cs) n = Break d1 (Suc 0) [b]"
    then show ?thesis
      using assms(3) by (simp add: filter_impl_Break_emit)
  next
    assume a: "cs \<noteq> [] \<and> Suc 0 < n \<and> state d1 = state d \<and>
        (\<exists>d' k. filter_step d (b # cs) n = Break d' (Suc k) (b # take k cs) \<and>
           filter_ReadFileData d1 cs (n - Suc 0) = Break d' k (take k cs))"
    then obtain d' k where big: "filter_step d (b # cs) n = Break d' (Suc k) ([b] @ take k cs)"
      and second: "filter_ReadFileData d1 cs (n - Suc 0) = Break d' k (take k cs)"
      by auto
    have "filter_step d1 cs (n - length [b]) = Break d' k (take k cs)"
      using second a assms(1) by (simp add: filter_step_def)
    from split_combine_Break [OF big this] a show ?thesis
      by simp
  qed
  with single inv1 show ?thesis
    unfolding first_byte_split_def by blast
qed

lemma first_byte_split_SkipPadding:
  assumes "state d = SkipPadding" and "padding_bytes d \<noteq> padding_bytes_skipped d" and "0 < n"
    and "filter_inv d"
  shows "first_byte_split d b cs n"
proof -
  have step: "filter_step d src m = filter_SkipPadding d src" for src m
    using assms(1) by (simp add: filter_step_def)
  have h: "header_bytes_read d < 512"
    using assms(1,4) by (simp add: filter_inv_def)
  from filter_SkipPadding_first [OF assms(2,1) h, of b cs]
  obtain d1 where one: "filter_step d [b] (Suc 0) = Break d1 (Suc 0) []"
    and h1: "header_bytes_read d1 < 512"
    and alt: "filter_step d (b # cs) n = Break d1 (Suc 0) [] \<or>
       (cs \<noteq> [] \<and>
        (\<exists>d' k. filter_step d (b # cs) n = Break d' (Suc k) [] \<and>
           state d1 = SkipPadding \<and> filter_SkipPadding d1 cs = Break d' k []))"
    unfolding step by blast
  have inv1: "filter_inv d1"
    using h1 by (simp add: filter_inv_def)
  have single: "filter_impl d [b] (Suc 0) = Some (d1, [], [], True)"
    using one by (rule single_Break)
  from alt have "filter_impl d (b # cs) n = emit [] (filter_impl d1 cs (n - length ([] :: byte list)))"
  proof
    assume "filter_step d (b # cs) n = Break d1 (Suc 0) []"
    then show ?thesis
      using assms(3) by (simp add: filter_impl_Break_emit)
  next
    assume a: "cs \<noteq> [] \<and>
        (\<exists>d' k. filter_step d (b # cs) n = Break d' (Suc k) [] \<and>
           state d1 = SkipPadding \<and> filter_SkipPadding d1 cs = Break d' k [])"
    then obtain d' k where big: "filter_step d (b # cs) n = Break d' (Suc k) ([] @ [])"
      and st: "state d1 = SkipPadding"
      and second: "filter_SkipPadding d1 cs = Break d' k []"
      by auto
    have "filter_step d1 cs (n - length ([] :: byte list)) = Break d' k []"
      using second st by (simp add: filter_step_def)
    from split_combine_Break [OF big this] a assms(3) show ?thesis
      by simp
  qed
  with single inv1 show ?thesis
    unfolding first_byte_split_def by blast
qed

lemma first_byte_split_ReadHeader:
  assumes "state d = ReadHeader" and "0 < n" and "filter_inv d"
  shows "first_byte_split d b cs n"
proof -
  have step: "filter_step d src m = filter_ReadHeader d src" for src m
    using assms(1) by (simp add: filter_step_def)
  have h: "header_bytes_read d < 512"
    using assms(1,3) by (simp add: filter_inv_def)
  from filter_ReadHeader_first [OF h assms(1), of b cs]
  consider
    (stop) d1 where "filter_step d [b] (Suc 0) = ReturnFalse d1 (Suc 0)"
      "filter_step d (b # cs) n = ReturnFalse d1 (Suc 0)" "state d1 = Done"
  | (same) d1 where "filter_step d [b] (Suc 0) = Break d1 (Suc 0) []"
      "header_bytes_read d1 < 512" "filter_step d (b # cs) n = Break d1 (Suc 0) []"
  | (more) d1 d' k where "filter_step d [b] (Suc 0) = Break d1 (Suc 0) []"
      "header_bytes_read d1 < 512" "cs \<noteq> []" "state d1 = ReadHeader"
      "filter_step d (b # cs) n = Break d' (Suc k) []" "filter_ReadHeader d1 cs = Break d' k []"
  | (more_stop) d1 d' k where "filter_step d [b] (Suc 0) = Break d1 (Suc 0) []"
      "header_bytes_read d1 < 512" "cs \<noteq> []" "state d1 = ReadHeader"
      "filter_step d (b # cs) n = ReturnFalse d' (Suc k)" "filter_ReadHeader d1 cs = ReturnFalse d' k"
    unfolding step by blast
  then show ?thesis
  proof cases
    case stop
    have "filter_inv d1"
      using stop(3) by (simp add: filter_inv_def)
    moreover have "filter_impl d [b] (Suc 0) = Some (d1, [], [], False)"
      using stop(1) by (rule single_ReturnFalse)
    moreover have "filter_impl d (b # cs) n = Some (d1, cs, [], False)"
      using stop(2) assms(2) by (simp add: filter_impl_ReturnFalse)
    ultimately show ?thesis
      unfolding first_byte_split_def by blast
  next
    case same
    have "filter_inv d1"
      using same(2) by (simp add: filter_inv_def)
    moreover have "filter_impl d [b] (Suc 0) = Some (d1, [], [], True)"
      using same(1) by (rule single_Break)
    moreover have "filter_impl d (b # cs) n = emit [] (filter_impl d1 cs (n - length ([] :: byte list)))"
      using same(3) assms(2) by (simp add: filter_impl_Break_emit)
    ultimately show ?thesis
      unfolding first_byte_split_def by blast
  next
    case more
    have "filter_inv d1"
      using more(2) by (simp add: filter_inv_def)
    moreover have "filter_impl d [b] (Suc 0) = Some (d1, [], [], True)"
      using more(1) by (rule single_Break)
    moreover have "filter_impl d (b # cs) n = emit [] (filter_impl d1 cs (n - length ([] :: byte list)))"
    proof -
      have big: "filter_step d (b # cs) n = Break d' (Suc k) ([] @ [])"
        using more(5) by simp
      have "filter_step d1 cs (n - length ([] :: byte list)) = Break d' k []"
        using more(4,6) by (simp add: filter_step_def)
      from split_combine_Break [OF big this] more(3) assms(2) show ?thesis
        by simp
    qed
    ultimately show ?thesis
      unfolding first_byte_split_def by blast
  next
    case more_stop
    have "filter_inv d1"
      using more_stop(2) by (simp add: filter_inv_def)
    moreover have "filter_impl d [b] (Suc 0) = Some (d1, [], [], True)"
      using more_stop(1) by (rule single_Break)
    moreover have "filter_impl d (b # cs) n = emit [] (filter_impl d1 cs (n - length ([] :: byte list)))"
    proof -
      have "filter_step d1 cs n = ReturnFalse d' k"
        using more_stop(4,6) by (simp add: filter_step_def)
      from split_combine_ReturnFalse [OF more_stop(5) this more_stop(3) assms(2)] show ?thesis
        by simp
    qed
    ultimately show ?thesis
      unfolding first_byte_split_def by blast
  qed
qed

section \<open>Passes that consume nothing\<close>

text \<open>
  A file of size zero and a padding of length zero are each left by a pass that consumes
  no byte; \<open>skip_empty\<close> is the decoder after these passes.
\<close>

definition skip_empty :: "BaseTarFilterImpl \<Rightarrow> BaseTarFilterImpl" where
  "skip_empty d =
     (let d1 = (if state d = ReadFileData \<and> file_size d = file_bytes_read d
                then d\<lparr>state := SkipPadding\<rparr> else d)
      in if state d1 = SkipPadding \<and> padding_bytes d1 = padding_bytes_skipped d1
         then d1\<lparr>state := ReadHeader\<rparr> else d1)"

lemma filter_impl_empty_data:
  assumes "state d = ReadFileData" and "file_size d = file_bytes_read d"
    and "src \<noteq> []" and "0 < n"
  shows "filter_impl d src n = filter_impl (d\<lparr>state := SkipPadding\<rparr>) src n"
proof -
  have "filter_step d src n = Break (d\<lparr>state := SkipPadding\<rparr>) 0 []"
    using assms(1,2) by (simp add: filter_step_def filter_ReadFileData_def Let_def)
  from filter_impl_Break_emit [OF assms(3,4) this] show ?thesis
    by simp
qed

lemma filter_impl_empty_padding:
  assumes "state d = SkipPadding" and "padding_bytes d = padding_bytes_skipped d"
    and "src \<noteq> []" and "0 < n"
  shows "filter_impl d src n = filter_impl (d\<lparr>state := ReadHeader\<rparr>) src n"
proof -
  have "filter_step d src n = Break (d\<lparr>state := ReadHeader\<rparr>) 0 []"
    using assms(1,2) by (simp add: filter_step_def filter_SkipPadding_def Let_def)
  from filter_impl_Break_emit [OF assms(3,4) this] show ?thesis
    by simp
qed

lemma filter_impl_skip_empty:
  assumes "src \<noteq> []" and "0 < n"
  shows "filter_impl d src n = filter_impl (skip_empty d) src n"
proof -
  define d1 where "d1 = (if state d = ReadFileData \<and> file_size d = file_bytes_read d
                then d\<lparr>state := SkipPadding\<rparr> else d)"
  have a: "filter_impl d src n = filter_impl d1 src n"
    using filter_impl_empty_data [OF _ _ assms] by (simp add: d1_def)
  have "filter_impl d1 src n = filter_impl (if state d1 = SkipPadding \<and>
      padding_bytes d1 = padding_bytes_skipped d1 then d1\<lparr>state := ReadHeader\<rparr> else d1) src n"
    using filter_impl_empty_padding [OF _ _ assms, of d1] by simp
  with a show ?thesis
    by (simp add: skip_empty_def Let_def d1_def)
qed

lemma filter_inv_skip_empty: "filter_inv d \<Longrightarrow> filter_inv (skip_empty d)"
  by (auto simp: filter_inv_def skip_empty_def Let_def)

lemma first_byte_split_skip_empty:
  assumes "filter_inv d" and "0 < n" and "state (skip_empty d) \<noteq> Done"
  shows "first_byte_split (skip_empty d) b cs n"
proof (cases "state (skip_empty d)")
  case ReadHeader
  then show ?thesis
    using assms filter_inv_skip_empty by (intro first_byte_split_ReadHeader) auto
next
  case ReadFileData
  moreover from this have "file_size (skip_empty d) \<noteq> file_bytes_read (skip_empty d)"
    by (auto simp: skip_empty_def Let_def split: if_splits)
  ultimately show ?thesis
    using assms filter_inv_skip_empty by (intro first_byte_split_ReadFileData) auto
next
  case SkipPadding
  moreover from this have "padding_bytes (skip_empty d) \<noteq> padding_bytes_skipped (skip_empty d)"
    by (auto simp: skip_empty_def Let_def split: if_splits)
  ultimately show ?thesis
    using assms filter_inv_skip_empty by (intro first_byte_split_SkipPadding) auto
next
  case Done
  with assms(3) show ?thesis
    by simp
qed

section \<open>The decoder fed one byte at a time\<close>

text \<open>
  \<open>bytewise\<close> calls the decoder once per input byte, with a source range of that byte
  and a destination range of one byte, until it returns \<open>false\<close>.  Every call, with any
  ranges, does what this run does on the bytes the call consumes.
\<close>

fun bytewise :: "BaseTarFilterImpl \<Rightarrow> byte list \<Rightarrow>
    (BaseTarFilterImpl \<times> byte list \<times> byte list \<times> bool) option" where
  "bytewise d [] = Some (d, [], [], True)"
| "bytewise d (b # bs) =
     (case filter_impl d [b] (Suc 0) of
        None \<Rightarrow> None
      | Some (d', rest, out, r) \<Rightarrow>
          if r then emit out (bytewise d' bs) else Some (d', rest @ bs, out, False))"

definition resume :: "(BaseTarFilterImpl \<times> byte list \<times> byte list \<times> bool) option \<Rightarrow> byte list \<Rightarrow>
    (BaseTarFilterImpl \<times> byte list \<times> byte list \<times> bool) option" where
  "resume res more_src =
     (case res of
        None \<Rightarrow> None
      | Some (d', rest, out, r) \<Rightarrow>
          if r then emit out (bytewise d' (rest @ more_src))
          else Some (d', rest @ more_src, out, False))"

lemma resume_emit: "resume (emit w res) xs = emit w (resume res xs)"
  by (auto simp: resume_def emit_def split: option.splits)

lemma bytewise_resume:
  "filter_inv d \<Longrightarrow> bytewise d (src @ xs) = resume (filter_impl d src n) xs"
proof (induction src arbitrary: d n)
  case Nil
  then show ?case
    by (simp add: filter_impl_exit resume_def)
next
  case (Cons b cs)
  show ?case
  proof (cases "n = 0")
    case True
    then show ?thesis
      by (simp add: filter_impl_exit resume_def del: bytewise.simps)
  next
    case False
    then have n: "0 < n"
      by simp
    define e where "e = skip_empty d"
    have inv: "filter_inv e"
      using Cons.prems by (simp add: e_def filter_inv_skip_empty)
    have big: "filter_impl d (b # cs) n = filter_impl e (b # cs) n"
      unfolding e_def using n by (intro filter_impl_skip_empty) auto
    have one: "filter_impl d [b] (Suc 0) = filter_impl e [b] (Suc 0)"
      unfolding e_def by (intro filter_impl_skip_empty) auto
    show ?thesis
    proof (cases "state e = Done")
      case True
      then have "filter_impl e src m = Some (e, src, [], src = [] \<or> m = 0)" for src m
        by (subst filter_impl.simps) (auto simp: filter_step_def)
      then show ?thesis
        using n by (simp add: big one resume_def)
    next
      case False
      from first_byte_split_skip_empty [OF Cons.prems n False [unfolded e_def], of b cs]
      obtain d1 w1 where inv1: "filter_inv d1"
        and alt: "(filter_impl e [b] (Suc 0) = Some (d1, [], [], False) \<and>
            filter_impl e (b # cs) n = Some (d1, cs, [], False)) \<or>
          (filter_impl e [b] (Suc 0) = Some (d1, [], w1, True) \<and>
            filter_impl e (b # cs) n = emit w1 (filter_impl d1 cs (n - length w1)))"
        unfolding first_byte_split_def e_def by blast
      from alt show ?thesis
      proof
        assume "filter_impl e [b] (Suc 0) = Some (d1, [], [], False) \<and>
            filter_impl e (b # cs) n = Some (d1, cs, [], False)"
        then show ?thesis
          by (simp add: big one resume_def)
      next
        assume a: "filter_impl e [b] (Suc 0) = Some (d1, [], w1, True) \<and>
            filter_impl e (b # cs) n = emit w1 (filter_impl d1 cs (n - length w1))"
        then have "bytewise d ((b # cs) @ xs) = emit w1 (bytewise d1 (cs @ xs))"
          by (simp add: one)
        also have "\<dots> = emit w1 (resume (filter_impl d1 cs (n - length w1)) xs)"
          using Cons.IH [OF inv1] by simp
        also have "\<dots> = resume (filter_impl d (b # cs) n) xs"
          using a by (simp add: big resume_emit)
        finally show ?thesis .
      qed
    qed
  qed
qed

section \<open>Every call from a valid decoder is defined\<close>

lemma filter_step_inv:
  assumes "filter_inv d"
  shows "filter_step d src n \<noteq> Fault"
    and "filter_step d src n = Break d' k w \<Longrightarrow> filter_inv d'"
    and "filter_step d src n = ReturnFalse d' k \<Longrightarrow> filter_inv d'"
proof -
  have "filter_step d src n \<noteq> Fault \<and>
    (filter_step d src n = Break d' k w \<longrightarrow> filter_inv d') \<and>
    (filter_step d src n = ReturnFalse d' k \<longrightarrow> filter_inv d')"
  proof (cases "state d")
    case ReadHeader
    then have h: "header_bytes_read d < 512"
      using assms by (simp add: filter_inv_def)
    define j where "j = min (512 - unat (header_bytes_read d)) (length src)"
    have u: "unat (header_bytes_read d) + length (take j src) \<le> 512"
      using unat_needed [OF h] by (auto simp: j_def)
    have "unat (header_bytes_read d) + j \<noteq> 512 \<Longrightarrow>
        header_bytes_read (header_fill d (take j src)) < 512"
      using unat_header_fill [OF u] u
      by (simp add: word_less_nat_alt j_def del: header_fill_fields)
    then show ?thesis
      using ReadHeader filter_ReadHeader_eq [OF h, of src]
      by (auto simp: filter_step_def Let_def j_def filter_inv_def filter_header_complete_def
          simp del: header_fill_fields split: if_splits)
  next
    case ReadFileData
    then show ?thesis
      using assms by (auto simp: filter_step_def filter_ReadFileData_def Let_def filter_inv_def)
  next
    case SkipPadding
    then show ?thesis
      using assms by (auto simp: filter_step_def filter_SkipPadding_def Let_def filter_inv_def)
  next
    case Done
    then show ?thesis
      using assms by (auto simp: filter_step_def)
  qed
  then show "filter_step d src n \<noteq> Fault"
    and "filter_step d src n = Break d' k w \<Longrightarrow> filter_inv d'"
    and "filter_step d src n = ReturnFalse d' k \<Longrightarrow> filter_inv d'"
    by simp_all
qed

lemma filter_impl_total:
  "filter_inv d \<Longrightarrow> \<exists>d' rest out r. filter_impl d src n = Some (d', rest, out, r) \<and> filter_inv d'"
proof (induction d src n rule: filter_impl.induct)
  case (1 d src n)
  show ?case
  proof (cases "src \<noteq> [] \<and> 0 < n")
    case False
    then show ?thesis
      using "1.prems" filter_impl_exit [of src n d] by auto
  next
    case True
    show ?thesis
    proof (cases "filter_step d src n")
      case Fault
      then show ?thesis
        using filter_step_inv(1) [OF "1.prems"] by simp
    next
      case (ReturnFalse d1 k)
      then show ?thesis
        using True filter_step_inv(3) [OF "1.prems" ReturnFalse]
        by (auto simp: filter_impl_ReturnFalse)
    next
      case (Break d1 k w)
      from "1.IH" [OF True Break filter_step_inv(2) [OF "1.prems" Break]]
      obtain d' rest out r where "filter_impl d1 (drop k src) (n - length w) = Some (d', rest, out, r)"
        and "filter_inv d'"
        by blast
      then show ?thesis
        using True Break by (simp add: filter_impl_Break_emit)
    qed
  qed
qed

section \<open>Drivers\<close>

text \<open>
  A driver calls the decoder repeatedly on one input.  A schedule lists, for each call,
  how many of the bytes not yet consumed are offered as the source range and how long
  the destination range is; bytes a call leaves unconsumed are offered again.  The
  driver stops calling when a call returns \<open>false\<close>.  Any partition of the input into
  chunks, with any destination buffer size per call, is such a schedule.
\<close>

fun drive :: "(nat \<times> nat) list \<Rightarrow> BaseTarFilterImpl \<Rightarrow> byte list \<Rightarrow>
    (BaseTarFilterImpl \<times> byte list \<times> byte list \<times> bool) option" where
  "drive [] d bs = Some (d, bs, [], True)"
| "drive ((i, n) # calls) d bs =
     (case filter_impl d (take i bs) n of
        None \<Rightarrow> None
      | Some (d', rest, out, r) \<Rightarrow>
          if r then emit out (drive calls d' (rest @ drop i bs))
          else Some (d', rest @ drop i bs, out, False))"

lemma drive_bytewise:
  "filter_inv d \<Longrightarrow> drive calls d bs = Some (d', rest, out, r) \<Longrightarrow> \<not> r \<or> rest = [] \<Longrightarrow>
   bytewise d bs = Some (d', rest, out, r)"
proof (induction calls arbitrary: d bs out)
  case Nil
  then show ?case
    by auto
next
  case (Cons c calls)
  obtain i n where c: "c = (i, n)"
    by (cases c)
  from filter_impl_total [OF Cons.prems(1), of "take i bs" n]
  obtain d1 rest1 out1 r1 where call: "filter_impl d (take i bs) n = Some (d1, rest1, out1, r1)"
    and inv1: "filter_inv d1"
    by blast
  have "bytewise d (take i bs @ drop i bs) = resume (filter_impl d (take i bs) n) (drop i bs)"
    using Cons.prems(1) by (rule bytewise_resume)
  then have bw: "bytewise d bs =
      (if r1 then emit out1 (bytewise d1 (rest1 @ drop i bs))
       else Some (d1, rest1 @ drop i bs, out1, False))"
    by (simp add: call resume_def)
  show ?case
  proof (cases r1)
    case False
    then show ?thesis
      using Cons.prems(2) bw by (simp add: c call)
  next
    case True
    with Cons.prems(2) obtain out2 where rec: "drive calls d1 (rest1 @ drop i bs) = Some (d', rest, out2, r)"
      and out: "out = out1 @ out2"
      by (auto simp: c call emit_def split: option.splits)
    from Cons.IH [OF inv1 rec Cons.prems(3)] show ?thesis
      using True bw out by simp
  qed
qed

lemma filter_impl_progress:
  assumes "filter_inv d" and "src \<noteq> []" and "0 < n"
    and "filter_impl d src n = Some (d', rest, out, True)"
  shows "length rest < length src"
proof -
  obtain b cs where src: "src = b # cs"
    using assms(2) by (cases src) auto
  define e where "e = skip_empty d"
  have big: "filter_impl e (b # cs) n = Some (d', rest, out, True)"
    using assms(3,4) filter_impl_skip_empty [of "b # cs" n d] by (simp add: src e_def)
  have nd: "state e \<noteq> Done"
  proof
    assume "state e = Done"
    then have "filter_impl e (b # cs) n = Some (e, b # cs, [], False)"
      using assms(3) by (subst filter_impl.simps) (auto simp: filter_step_def)
    with big show False
      by simp
  qed
  from first_byte_split_skip_empty [OF assms(1,3) nd [unfolded e_def], of b cs] big
  obtain d1 w1 where "emit w1 (filter_impl d1 cs (n - length w1)) = Some (d', rest, out, True)"
    unfolding first_byte_split_def e_def by auto
  then obtain out1 where "filter_impl d1 cs (n - length w1) = Some (d', rest, out1, True)"
    by (auto simp: emit_def split: option.splits)
  from filter_impl_bounds [OF this] show ?thesis
    by (simp add: src)
qed

lemma drive_completes:
  assumes "filter_inv d" and "\<forall>(i, n) \<in> set calls. 0 < i \<and> 0 < n" and "length bs \<le> length calls"
  shows "\<exists>d' rest out r. drive calls d bs = Some (d', rest, out, r) \<and> (\<not> r \<or> rest = [])"
  using assms
proof (induction calls arbitrary: d bs)
  case Nil
  then show ?case
    by auto
next
  case (Cons c calls)
  obtain i n where c: "c = (i, n)"
    by (cases c)
  have pos: "0 < i" "0 < n"
    using Cons.prems(2) by (auto simp: c)
  from filter_impl_total [OF Cons.prems(1), of "take i bs" n]
  obtain d1 rest1 out1 r1 where call: "filter_impl d (take i bs) n = Some (d1, rest1, out1, r1)"
    and inv1: "filter_inv d1"
    by blast
  show ?case
  proof (cases r1)
    case False
    then show ?thesis
      by (auto simp: c call)
  next
    case True
    have "length (rest1 @ drop i bs) \<le> length calls"
    proof (cases "bs = []")
      case True
      then show ?thesis
        using call by (simp add: filter_impl_exit)
    next
      case False
      then have "take i bs \<noteq> []"
        using pos(1) by (cases bs) auto
      from filter_impl_progress [OF Cons.prems(1) this pos(2) call [unfolded True [THEN eqTrueI]]]
      have "length rest1 < length (take i bs)"
        by simp
      then show ?thesis
        using Cons.prems(3) by simp arith
    qed
    from Cons.IH [OF inv1 _ this] Cons.prems(2)
    obtain d' rest out r where "drive calls d1 (rest1 @ drop i bs) = Some (d', rest, out, r)"
      and "\<not> r \<or> rest = []"
      by auto
    then show ?thesis
      using True by (simp add: c call)
  qed
qed

section \<open>Concrete archives\<close>

text \<open>
  A header block with the name \<open>a\<close>, a given size field and a given type flag, all other
  fields zero; and rules that run the decoder over whole headers, file data and padding.
\<close>

definition example_header :: "byte list \<Rightarrow> byte \<Rightarrow> byte list" where
  "example_header size_field typeflag =
     0x61 # replicate 123 0 @ size_field @ replicate 20 0 @ [typeflag] @ replicate 355 0"

definition octal_1 :: "byte list" where
  "octal_1 = [0x30, 0x30, 0x30, 0x30, 0x30, 0x30, 0x30, 0x30, 0x30, 0x30, 0x31, 0x00]"

definition octal_3 :: "byte list" where
  "octal_3 = [0x30, 0x30, 0x30, 0x30, 0x30, 0x30, 0x30, 0x30, 0x30, 0x30, 0x33, 0x00]"

lemma length_octal [simp]: "length octal_1 = 12" "length octal_3 = 12"
  by (simp_all add: octal_1_def octal_3_def)

lemma length_example_header [simp]: "length sf = 12 \<Longrightarrow> length (example_header sf tf) = 512"
  by (simp add: example_header_def)

lemma size_example_header [simp]: "length sf = 12 \<Longrightarrow> TarHeader_size (example_header sf tf) = sf"
  by (simp add: example_header_def TarHeader_size_def)

lemma typeflag_example_header [simp]: "length sf = 12 \<Longrightarrow> TarHeader_typeflag (example_header sf tf) = [tf]"
  by (simp add: example_header_def TarHeader_typeflag_def)

lemma name_example_header [simp]: "extract_file_name_impl (example_header sf tf) = [0x61]"
  by (simp add: example_header_def extract_file_name_impl_def TarHeader_name_def)

lemma not_zero_block: "i < 512 \<Longrightarrow> block ! i \<noteq> 0 \<Longrightarrow> \<not> is_zero_block_impl block"
  by (auto simp: is_zero_block_impl_def list_all_iff)

lemma nz_example_header [simp]: "\<not> is_zero_block_impl (example_header sf tf)"
  by (rule not_zero_block [of 0]) (simp_all add: example_header_def)

lemma zero_block_replicate [simp]:
  "is_zero_block_impl (replicate 512 0 @ xs)" "is_zero_block_impl (replicate 512 0)"
  by (auto simp: is_zero_block_impl_def list_all_iff nth_append)

lemma parse_octal_1 [simp]: "parse_octal_impl octal_1 12 = 1"
  by (simp add: parse_octal_impl_foldl octal_1_def octal_accum_def)

lemma parse_octal_3 [simp]: "parse_octal_impl octal_3 12 = 3"
  by (simp add: parse_octal_impl_foldl octal_3_def octal_accum_def)

lemma first_octal [simp]: "octal_1 ! 0 = 0x30" "octal_3 ! 0 = 0x30"
  by (simp_all add: octal_1_def octal_3_def)

lemma filter_step_whole_header:
  assumes "state d = ReadHeader" and "header_bytes_read d = 0" and "length (header_buffer d) \<le> 512"
    and "length hdr = 512"
  shows "filter_step d (hdr @ rest) n =
    (if is_zero_block_impl hdr
     then ReturnFalse (d\<lparr>header_buffer := hdr, header_bytes_read := 512, state := Done\<rparr>) 512
     else Break (filter_header_complete (d\<lparr>header_buffer := hdr, header_bytes_read := 512\<rparr>)) 512 [])"
proof -
  have h: "header_bytes_read d < 512"
    by (simp add: assms(2))
  have "header_fill d hdr = d\<lparr>header_buffer := hdr, header_bytes_read := 512\<rparr>"
    using assms by (simp add: header_fill_def Let_def resize_def)
  moreover have "512 = min (512 - unat (header_bytes_read d)) (length (hdr @ rest))"
    using assms by simp
  from filter_ReadHeader_result [OF h this]
  have "filter_ReadHeader d (hdr @ rest) = header_result d hdr 512"
    using assms(4) by simp
  ultimately show ?thesis
    using assms by (simp add: filter_step_def header_result_def Let_def)
qed

lemma filter_impl_whole_header:
  assumes "state d = ReadHeader" and "header_bytes_read d = 0" and "length (header_buffer d) \<le> 512"
    and "length hdr = 512" and "0 < n"
  shows "filter_impl d (hdr @ rest) n =
    (if is_zero_block_impl hdr
     then Some (d\<lparr>header_buffer := hdr, header_bytes_read := 512, state := Done\<rparr>, rest, [], False)
     else filter_impl (filter_header_complete (d\<lparr>header_buffer := hdr, header_bytes_read := 512\<rparr>))
       rest n)"
proof -
  have ne: "hdr @ rest \<noteq> []"
    using assms(4) by auto
  show ?thesis
    using filter_step_whole_header [OF assms(1-4), of rest n] assms(4,5) ne
    by (simp add: filter_impl_Break_emit filter_impl_ReturnFalse)
qed

lemma filter_impl_ReadFileData:
  assumes "state d = ReadFileData" and "src \<noteq> []" and "0 < n"
    and "k = min (unat (file_size d - file_bytes_read d)) (min (length src) n)"
  shows "filter_impl d src n = emit (take k src) (filter_impl (data_read d k) (drop k src) (n - k))"
proof -
  have "filter_step d src n = Break (data_read d k) k (take k src)"
    using filter_ReadFileData_eq [OF assms(4)] assms(1) by (simp add: filter_step_def)
  from filter_impl_Break_emit [OF assms(2,3) this] show ?thesis
    using assms(4) by simp
qed

lemma filter_impl_SkipPadding:
  assumes "state d = SkipPadding" and "src \<noteq> []" and "0 < n"
    and "k = min (unat (padding_bytes d - padding_bytes_skipped d)) (length src)"
  shows "filter_impl d src n = filter_impl (padding_skip d k) (drop k src) n"
proof -
  have "filter_step d src n = Break (padding_skip d k) k []"
    using filter_SkipPadding_eq [OF assms(4)] assms(1) by (simp add: filter_step_def)
  from filter_impl_Break_emit [OF assms(2,3) this] show ?thesis
    by simp
qed

lemma header_complete_example:
  assumes "length sf = 12" and "sf ! 0 AND 0x80 = 0"
  shows "filter_header_complete
      \<lparr>header_buffer = example_header sf tf, header_bytes_read = h, file_size = fs,
       file_bytes_read = fbr, padding_bytes = pb, padding_bytes_skipped = pbs, state = st,
       current_file_name = nm\<rparr> =
    \<lparr>header_buffer = example_header sf tf, header_bytes_read = 0,
     file_size = (if tf = 0x30 \<or> tf = 0 then parse_octal_impl sf 12 else 0),
     file_bytes_read = 0,
     padding_bytes = (512 - parse_octal_impl sf 12 mod 512) mod 512,
     padding_bytes_skipped = 0,
     state = (if tf = 0x30 \<or> tf = 0 then ReadFileData else SkipPadding),
     current_file_name = [0x61]\<rparr>"
  using assms
  by (simp add: filter_header_complete_def Let_def parse_file_size_impl_def is_regular_file_def)

lemma filter_impl_ReadFileData_run:
  assumes "state d = ReadFileData" and "src \<noteq> []" and "0 < n"
  shows "filter_impl d src n =
    emit (take (min (unat (file_size d - file_bytes_read d)) (min (length src) n)) src)
      (filter_impl (data_read d (min (unat (file_size d - file_bytes_read d)) (min (length src) n)))
        (drop (min (unat (file_size d - file_bytes_read d)) (min (length src) n)) src)
        (n - min (unat (file_size d - file_bytes_read d)) (min (length src) n)))"
  using filter_impl_ReadFileData [OF assms refl] .

lemma filter_impl_SkipPadding_run:
  assumes "state d = SkipPadding" and "src \<noteq> []" and "0 < n"
  shows "filter_impl d src n =
    filter_impl (padding_skip d (min (unat (padding_bytes d - padding_bytes_skipped d)) (length src)))
      (drop (min (unat (padding_bytes d - padding_bytes_skipped d)) (length src)) src) n"
  using filter_impl_SkipPadding [OF assms refl] .

definition hello_archive :: "byte list" where
  "hello_archive =
     example_header octal_3 0x30 @ [0x68, 0x69, 0x0A] @ replicate 509 0 @ replicate 512 0"

definition hello_done :: BaseTarFilterImpl where
  "hello_done =
     \<lparr>header_buffer = replicate 512 0, header_bytes_read = 512, file_size = 3,
      file_bytes_read = 3, padding_bytes = 509, padding_bytes_skipped = 509, state = Done,
      current_file_name = [0x61]\<rparr>"

lemma filter_impl_exact_header:
  assumes "state d = ReadHeader" and "header_bytes_read d = 0" and "length (header_buffer d) \<le> 512"
    and "length hdr = 512" and "0 < n"
  shows "filter_impl d hdr n =
    (if is_zero_block_impl hdr
     then Some (d\<lparr>header_buffer := hdr, header_bytes_read := 512, state := Done\<rparr>, [], [], False)
     else filter_impl (filter_header_complete (d\<lparr>header_buffer := hdr, header_bytes_read := 512\<rparr>))
       [] n)"
  using filter_impl_whole_header [OF assms, of "[]"] by simp

lemmas run_simps =
  filter_impl_whole_header filter_impl_exact_header filter_impl_ReadFileData_run filter_impl_SkipPadding_run
  filter_impl_exit header_complete_example data_read_def padding_skip_def Let_def
  BaseTarFilterImpl_init_def

lemma drive_hello_one_call:
  "drive [(1536, 65536)] BaseTarFilterImpl_init hello_archive =
     Some (hello_done, [], [0x68, 0x69, 0x0A], False)"
  by (simp add: run_simps hello_archive_def hello_done_def)

lemma drive_hello_small:
  "drive [(512, 1), (1, 1), (1, 1), (1, 1), (1021, 1)] BaseTarFilterImpl_init hello_archive =
     Some (hello_done, [], [0x68, 0x69, 0x0A], False)"
  by (simp add: run_simps hello_archive_def hello_done_def)

section \<open>Cursor bounds\<close>

text \<open>
  \<open>filter_advance\<close> is the loop of \<open>filter_impl\<close> again, keeping only the two cursors: how
  far \<open>src_begin\<close> and \<open>dest_begin\<close> have moved when the call returns, as the sums of the
  \<open>to_copy\<close> and \<open>to_skip\<close> of the passes.  The sums are not cut at the ends of the ranges,
  so a pass that moved a cursor past its end would give a sum above the length of the
  range.
\<close>

function filter_advance :: "BaseTarFilterImpl \<Rightarrow> byte list \<Rightarrow> nat \<Rightarrow> (nat \<times> nat) option" where
  "filter_advance d src n =
     (if src \<noteq> [] \<and> 0 < n then
        (case filter_step d src n of
           Fault \<Rightarrow> None
         | ReturnFalse d' k \<Rightarrow> Some (k, 0)
         | Break d' k w \<Rightarrow>
             (case filter_advance d' (drop k src) (n - length w) of
                None \<Rightarrow> None
              | Some (a, b) \<Rightarrow> Some (k + a, length w + b)))
      else Some (0, 0))"
  by pat_completeness auto
termination
proof (relation "measures [\<lambda>(d, src, n). length src, \<lambda>(d, src, n). filter_rank d]")
  show "wf (measures [\<lambda>(d, src, n). length src, \<lambda>(d, src, n). filter_rank d])"
    by simp
next
  fix d d' :: BaseTarFilterImpl and src w :: "byte list" and n k :: nat
  assume "src \<noteq> [] \<and> 0 < n" and "filter_step d src n = Break d' k w"
  then have "(0 < k \<and> k \<le> length src) \<or> (k = 0 \<and> filter_rank d' < filter_rank d)"
    using filter_step_decreases by blast
  moreover have "src \<noteq> []"
    by (simp add: \<open>src \<noteq> [] \<and> 0 < n\<close>)
  ultimately show "((d', drop k src, n - length w), d, src, n)
      \<in> measures [\<lambda>(d, src, n). length src, \<lambda>(d, src, n). filter_rank d]"
    by auto
qed

declare filter_advance.simps [simp del]

lemma filter_advance_bounds:
  "filter_advance d src n = Some (a, b) \<Longrightarrow> a \<le> length src \<and> b \<le> n"
proof (induction d src n arbitrary: a b rule: filter_advance.induct)
  case (1 d src n)
  show ?case
  proof (cases "src \<noteq> [] \<and> 0 < n")
    case False
    then show ?thesis
      using "1.prems" by (subst (asm) filter_advance.simps) auto
  next
    case True
    show ?thesis
    proof (cases "filter_step d src n")
      case Fault
      then show ?thesis
        using True "1.prems" by (subst (asm) filter_advance.simps) simp
    next
      case (ReturnFalse d1 k)
      then show ?thesis
        using True "1.prems" filter_step_ReturnFalse_bounds [OF ReturnFalse]
        by (subst (asm) filter_advance.simps) auto
    next
      case (Break d1 k w)
      from filter_step_Break_bounds [OF Break]
      have kb: "k \<le> length src" "length w \<le> n"
        by simp_all
      from True "1.prems" Break
      obtain a1 b1 where rec: "filter_advance d1 (drop k src) (n - length w) = Some (a1, b1)"
        and ab: "a = k + a1" "b = length w + b1"
        by (subst (asm) filter_advance.simps) (auto split: option.splits)
      from "1.IH" [OF True Break rec]
      have "a1 \<le> length src - k" "b1 \<le> n - length w"
        by simp_all
      then show ?thesis
        using kb ab by arith
    qed
  qed
qed

lemma filter_impl_advance:
  "filter_impl d src n = Some (d', src', out, r) \<Longrightarrow>
   \<exists>a. filter_advance d src n = Some (a, length out) \<and> src' = drop a src"
proof (induction d src n arbitrary: d' src' out r rule: filter_impl.induct)
  case (1 d src n)
  show ?case
  proof (cases "src \<noteq> [] \<and> 0 < n")
    case False
    then have "filter_advance d src n = Some (0, 0)"
      by (subst filter_advance.simps) auto
    then show ?thesis
      using False "1.prems" filter_impl_exit [of src n d] by auto
  next
    case True
    show ?thesis
    proof (cases "filter_step d src n")
      case Fault
      then show ?thesis
        using True "1.prems" by (simp add: filter_impl_Fault)
    next
      case (ReturnFalse d1 k)
      then have "filter_advance d src n = Some (k, 0)"
        using True by (subst filter_advance.simps) simp
      then show ?thesis
        using True "1.prems" ReturnFalse by (auto simp: filter_impl_ReturnFalse)
    next
      case (Break d1 k w)
      from True "1.prems" Break
      obtain out1 where rec: "filter_impl d1 (drop k src) (n - length w) = Some (d', src', out1, r)"
        and out: "out = w @ out1"
        by (auto simp: filter_impl_Break split: option.splits)
      from "1.IH" [OF True Break rec]
      obtain a1 where adv: "filter_advance d1 (drop k src) (n - length w) = Some (a1, length out1)"
        and rest: "src' = drop a1 (drop k src)"
        by blast
      have "filter_advance d src n = Some (k + a1, length w + length out1)"
        using True Break adv by (subst filter_advance.simps) simp
      then show ?thesis
        using rest out by (auto simp: add.commute)
    qed
  qed
qed

text \<open>
  A call on the example archive followed by one more byte, with room for two bytes of
  output: the header pass moves the source cursor by 512, the data pass moves both
  cursors by 2.  A call on a block of zeros returns \<open>false\<close> from its first pass.
\<close>

definition hello_data :: BaseTarFilterImpl where
  "hello_data =
     \<lparr>header_buffer = example_header octal_3 0x30, header_bytes_read = 0, file_size = 3,
      file_bytes_read = 0, padding_bytes = 509, padding_bytes_skipped = 0,
      state = ReadFileData, current_file_name = [0x61]\<rparr>"

lemma filter_step_hello:
  "filter_step BaseTarFilterImpl_init (hello_archive @ [0x41]) 2 = Break hello_data 512 []"
proof -
  have "filter_step BaseTarFilterImpl_init
      (example_header octal_3 0x30 @ ([0x68, 0x69, 0x0A] @ replicate 509 0 @ replicate 512 0 @ [0x41])) 2 =
    Break hello_data 512 []"
    by (subst filter_step_whole_header)
      (simp_all add: BaseTarFilterImpl_init_def header_complete_example hello_data_def)
  then show ?thesis
    by (simp add: hello_archive_def)
qed

lemma filter_step_zero_block:
  "filter_step BaseTarFilterImpl_init (replicate 512 0 @ [0x41]) 2 =
     ReturnFalse (BaseTarFilterImpl_init\<lparr>header_buffer := replicate 512 0,
       header_bytes_read := 512, state := Done\<rparr>) 512"
  by (subst filter_step_whole_header) (simp_all add: BaseTarFilterImpl_init_def)

lemma filter_impl_hello_two:
  "filter_impl BaseTarFilterImpl_init (hello_archive @ [0x41]) 2 =
     Some (hello_data\<lparr>file_bytes_read := 2\<rparr>,
           0x0A # replicate 509 0 @ replicate 512 0 @ [0x41], [0x68, 0x69], True)"
  by (simp add: run_simps hello_archive_def hello_data_def)

text \<open>
  Claim C6.  Whatever the decoder and the ranges: every pass of the loop moves the source
  cursor forward by no more than the source range holds and writes no more than the
  destination range holds; when the call returns, the source cursor has moved forward by
  \<open>a\<close> bytes and the destination cursor by \<open>b\<close> bytes with \<open>a\<close> at most the length of the
  source range (the cursor is between its old value and \<open>src_end\<close>) and \<open>b\<close> at most the
  length of the destination range (between its old value and \<open>dest_end\<close>); the unconsumed
  input is the source range without its first \<open>a\<close> bytes, and the bytes written are \<open>b\<close>
  many, no more than the destination range holds.  The call returns for every decoder
  that satisfies \<open>filter_inv\<close>, which holds of every decoder reached from a new one.
\<close>

theorem filter_impl_cursors:
  "(filter_inv d \<longrightarrow> filter_impl d src n \<noteq> None) \<and>
   (filter_step d src n = Break e k w \<longrightarrow> k \<le> length src \<and> length w \<le> n) \<and>
   (filter_step d src n = ReturnFalse e' k' \<longrightarrow> k' \<le> length src) \<and>
   (filter_advance d src n = Some (a, b) \<longrightarrow> a \<le> length src \<and> b \<le> n) \<and>
   (filter_impl d src n = Some (d', src', out, r) \<longrightarrow>
      filter_advance d src n = Some (length src - length src', length out) \<and>
      length src' \<le> length src \<and> src' = drop (length src - length src') src \<and>
      length out \<le> n)"
proof -
  have "filter_advance d src n = Some (length src - length src', length out)"
    if run: "filter_impl d src n = Some (d', src', out, r)"
  proof -
    from filter_impl_advance [OF run]
    obtain c where adv: "filter_advance d src n = Some (c, length out)" and rest: "src' = drop c src"
      by blast
    from filter_advance_bounds [OF adv] have "c \<le> length src"
      by simp
    then have "length src - length src' = c"
      using rest by simp
    with adv show ?thesis
      by simp
  qed
  then show ?thesis
    using filter_impl_bounds [of d src n d' src' out r] filter_impl_total [of d src n]
      filter_step_Break_bounds [of d src n e k w]
      filter_step_ReturnFalse_bounds [of d src n e' k']
      filter_advance_bounds [of d src n a b]
    by auto
qed

theorem filter_impl_cursors_witness:
  "filter_inv BaseTarFilterImpl_init \<and>
   filter_impl BaseTarFilterImpl_init (hello_archive @ [0x41]) 2 =
     Some (hello_data\<lparr>file_bytes_read := 2\<rparr>,
           0x0A # replicate 509 0 @ replicate 512 0 @ [0x41], [0x68, 0x69], True) \<and>
   filter_step BaseTarFilterImpl_init (hello_archive @ [0x41]) 2 = Break hello_data 512 [] \<and>
   (512 :: nat) \<le> length (hello_archive @ [0x41]) \<and>
   filter_step BaseTarFilterImpl_init (replicate 512 0 @ [0x41]) 2 =
     ReturnFalse (BaseTarFilterImpl_init\<lparr>header_buffer := replicate 512 0,
       header_bytes_read := 512, state := Done\<rparr>) 512 \<and>
   (512 :: nat) \<le> length (replicate 512 (0 :: byte) @ [0x41]) \<and>
   filter_advance BaseTarFilterImpl_init (hello_archive @ [0x41]) 2 = Some (514, 2) \<and>
   (514 :: nat) \<le> length (hello_archive @ [0x41]) \<and>
   0x0A # replicate 509 0 @ replicate 512 0 @ [0x41] = drop 514 (hello_archive @ [0x41]) \<and>
   length [0x68, 0x69 :: byte] \<le> 2"
proof -
  note t = filter_impl_cursors [of BaseTarFilterImpl_init "hello_archive @ [0x41]" 2
      hello_data 512 "[]" _ _ 514 2 "hello_data\<lparr>file_bytes_read := 2\<rparr>"
      "0x0A # replicate 509 0 @ replicate 512 0 @ [0x41]" "[0x68, 0x69]" True]
  note z = filter_impl_cursors [of BaseTarFilterImpl_init "replicate 512 0 @ [0x41]" 2
      _ _ _ "BaseTarFilterImpl_init\<lparr>header_buffer := replicate 512 0,
       header_bytes_read := 512, state := Done\<rparr>" 512]
  have len: "length hello_archive = 1536"
    by (simp add: hello_archive_def)
  have adv: "filter_advance BaseTarFilterImpl_init (hello_archive @ [0x41]) 2 = Some (514, 2)"
    using t filter_impl_hello_two by (simp add: len)
  have dr: "0x0A # replicate 509 0 @ replicate 512 0 @ [0x41] = drop 514 (hello_archive @ [0x41])"
    by (simp add: hello_archive_def)
  show ?thesis
    using t z filter_inv_init filter_impl_hello_two filter_step_hello filter_step_zero_block adv dr
    by (simp add: len)
qed

section \<open>The end marker\<close>



section \<open>Chunking\<close>

text \<open>
  A header that arrives in two calls: the first call buffers its first 300 bytes and
  returns, the second call completes it and goes on with the entry.
\<close>

lemma filter_impl_header_part:
  assumes "state d = ReadHeader" and "header_bytes_read d < 512" and "src \<noteq> []" and "0 < n"
    and "unat (header_bytes_read d) + length src < 512"
  shows "filter_impl d src n = Some (header_fill d src, [], [], True)"
proof -
  have k: "length src = min (512 - unat (header_bytes_read d)) (length src)"
    using assms(5) by simp
  have "filter_ReadHeader d src = header_result d (take (length src) src) (length src)"
    using assms(2) k by (rule filter_ReadHeader_result)
  then have "filter_step d src n = Break (header_fill d src) (length src) []"
    using assms(1,5) by (simp add: filter_step_def header_result_def Let_def)
  from filter_impl_Break_emit [OF assms(3,4) this] show ?thesis
    by (simp add: filter_impl_exit)
qed

lemma filter_impl_header_rest:
  assumes "state d = ReadHeader" and "header_bytes_read d < 512" and "0 < n"
    and "unat (header_bytes_read d) + length hs = 512"
  shows "filter_impl d (hs @ rest) n =
    (if is_zero_block_impl (header_buffer (header_fill d hs))
     then Some ((header_fill d hs)\<lparr>state := Done\<rparr>, rest, [], False)
     else filter_impl (filter_header_complete (header_fill d hs)) rest n)"
proof -
  have u: "unat (header_bytes_read d) < 512"
    using unat_needed [OF assms(2)] by simp
  then have ne: "hs @ rest \<noteq> []"
    using assms(4) by auto
  have k: "length hs = min (512 - unat (header_bytes_read d)) (length (hs @ rest))"
    using assms(4) by simp
  have "filter_ReadHeader d (hs @ rest) = header_result d (take (length hs) (hs @ rest)) (length hs)"
    using assms(2) k by (rule filter_ReadHeader_result)
  then have "filter_step d (hs @ rest) n =
    (if is_zero_block_impl (header_buffer (header_fill d hs))
     then ReturnFalse ((header_fill d hs)\<lparr>state := Done\<rparr>) (length hs)
     else Break (filter_header_complete (header_fill d hs)) (length hs) [])"
    using assms(1,4) by (simp add: filter_step_def header_result_def Let_def)
  then show ?thesis
    using ne assms(3) by (simp add: filter_impl_Break_emit filter_impl_ReturnFalse)
qed

definition hello_partial :: BaseTarFilterImpl where
  "hello_partial =
     \<lparr>header_buffer = take 300 (example_header octal_3 0x30) @ replicate 212 0,
      header_bytes_read = 300, file_size = 0, file_bytes_read = 0, padding_bytes = 0,
      padding_bytes_skipped = 0, state = ReadHeader, current_file_name = []\<rparr>"

lemma filter_impl_hello_first_part:
  "filter_impl BaseTarFilterImpl_init (take 300 (example_header octal_3 0x30)) n =
     (if 0 < n then Some (hello_partial, [], [], True)
      else Some (BaseTarFilterImpl_init, take 300 (example_header octal_3 0x30), [], True))"
proof (cases "0 < n")
  case True
  have "take 300 (example_header octal_3 0x30) \<noteq> []"
    by (simp add: example_header_def)
  then have "filter_impl BaseTarFilterImpl_init (take 300 (example_header octal_3 0x30)) n =
      Some (header_fill BaseTarFilterImpl_init (take 300 (example_header octal_3 0x30)), [], [], True)"
    using True by (intro filter_impl_header_part) (simp_all add: BaseTarFilterImpl_init_def)
  moreover have "header_fill BaseTarFilterImpl_init (take 300 (example_header octal_3 0x30)) =
      hello_partial"
    by (simp add: header_fill_def BaseTarFilterImpl_init_def hello_partial_def resize_def Let_def)
  ultimately show ?thesis
    using True by simp
next
  case False
  then show ?thesis
    by (simp add: filter_impl_exit)
qed

lemma header_fill_hello_partial:
  "header_fill hello_partial (drop 300 (example_header octal_3 0x30)) =
     \<lparr>header_buffer = example_header octal_3 0x30,
      header_bytes_read = 512, file_size = 0, file_bytes_read = 0, padding_bytes = 0,
      padding_bytes_skipped = 0, state = ReadHeader, current_file_name = []\<rparr>"
  by (simp add: header_fill_def hello_partial_def Let_def)

lemma filter_impl_hello_second_part:
  "0 < n \<Longrightarrow>
   filter_impl hello_partial (drop 300 (example_header octal_3 0x30) @ rest) n =
     filter_impl
       \<lparr>header_buffer = example_header octal_3 0x30, header_bytes_read = 0, file_size = 3,
        file_bytes_read = 0, padding_bytes = 509, padding_bytes_skipped = 0,
        state = ReadFileData, current_file_name = [0x61]\<rparr> rest n"
  by (subst filter_impl_header_rest)
    (simp_all add: header_fill_hello_partial header_complete_example, simp_all add: hello_partial_def)

lemma drive_hello_split_header:
  "drive [(300, 1), (212, 1), (1, 1), (1, 1), (1, 1), (1021, 1)] BaseTarFilterImpl_init hello_archive =
     Some (hello_done, [], [0x68, 0x69, 0x0A], False)"
proof -
  have t1: "take 300 hello_archive = take 300 (example_header octal_3 0x30)"
    by (simp add: hello_archive_def)
  have d1: "drop 300 hello_archive =
      drop 300 (example_header octal_3 0x30) @ [0x68, 0x69, 0x0A] @ replicate 509 0 @ replicate 512 0"
    by (simp add: hello_archive_def)
  have t2: "take 212 (drop 300 (example_header octal_3 0x30) @ [0x68, 0x69, 0x0A] @ replicate 509 0 @ replicate 512 0) =
      drop 300 (example_header octal_3 0x30) @ []"
    by simp
  have d2: "drop 212 (drop 300 (example_header octal_3 0x30) @ [0x68, 0x69, 0x0A] @ replicate 509 0 @ replicate 512 0) =
      [0x68, 0x69, 0x0A] @ replicate 509 0 @ replicate 512 0"
    by simp
  show ?thesis
    unfolding drive.simps t1 d1 t2 d2
    by (simp add: filter_impl_hello_first_part filter_impl_hello_second_part del: append_Nil2)
      (simp add: run_simps hello_done_def)
qed

text \<open>
  Claim C2.  For every input there is one result (output bytes, final decoder, unconsumed
  input and signal), ending with the stop signal or with the input consumed, such that
  every schedule with non-empty source and destination ranges and at least as many calls
  as the input has bytes runs to that result, whatever the sizes of its ranges (one byte
  each included), and every run under any schedule at all that ends with the stop signal
  or with the input consumed has that result.
\<close>

theorem chunking_invariance:
  "\<exists>d rest out r.
     (\<not> r \<or> rest = []) \<and>
     (\<forall>calls. (\<forall>(i, n) \<in> set calls. 0 < i \<and> 0 < n) \<and> length bs \<le> length calls \<longrightarrow>
        drive calls BaseTarFilterImpl_init bs = Some (d, rest, out, r)) \<and>
     (\<forall>calls d' rest' out' r'.
        drive calls BaseTarFilterImpl_init bs = Some (d', rest', out', r') \<and> (\<not> r' \<or> rest' = []) \<longrightarrow>
        out' = out \<and> r' = r \<and> rest' = rest \<and> d' = d)"
proof -
  define ones :: "(nat \<times> nat) list" where "ones = replicate (length bs) (Suc 0, Suc 0)"
  have pos: "\<forall>(i, n) \<in> set ones. 0 < i \<and> 0 < n"
    by (simp add: ones_def)
  have len: "length bs \<le> length ones"
    by (simp add: ones_def)
  from drive_completes [OF filter_inv_init pos len]
  obtain d rest out r where one: "drive ones BaseTarFilterImpl_init bs = Some (d, rest, out, r)"
    and fin: "\<not> r \<or> rest = []"
    by blast
  have canon: "bytewise BaseTarFilterImpl_init bs = Some (d, rest, out, r)"
    using filter_inv_init one fin by (rule drive_bytewise)
  have agree: "out' = out \<and> r' = r \<and> rest' = rest \<and> d' = d"
    if run: "drive calls BaseTarFilterImpl_init bs = Some (d', rest', out', r')"
      and fin': "\<not> r' \<or> rest' = []"
    for calls d' rest' out' r'
  proof -
    have "bytewise BaseTarFilterImpl_init bs = Some (d', rest', out', r')"
      using filter_inv_init run fin' by (rule drive_bytewise)
    with canon show ?thesis
      by simp
  qed
  have total: "drive calls BaseTarFilterImpl_init bs = Some (d, rest, out, r)"
    if "\<forall>(i, n) \<in> set calls. 0 < i \<and> 0 < n" and "length bs \<le> length calls" for calls
  proof -
    from drive_completes [OF filter_inv_init that]
    obtain d' rest' out' r' where run: "drive calls BaseTarFilterImpl_init bs = Some (d', rest', out', r')"
      and fin': "\<not> r' \<or> rest' = []"
      by blast
    from agree [OF run fin'] run show ?thesis
      by simp
  qed
  have body: "(\<not> r \<or> rest = []) \<and>
     (\<forall>calls. (\<forall>(i, n) \<in> set calls. 0 < i \<and> 0 < n) \<and> length bs \<le> length calls \<longrightarrow>
        drive calls BaseTarFilterImpl_init bs = Some (d, rest, out, r)) \<and>
     (\<forall>calls d' rest' out' r'.
        drive calls BaseTarFilterImpl_init bs = Some (d', rest', out', r') \<and> (\<not> r' \<or> rest' = []) \<longrightarrow>
        out' = out \<and> r' = r \<and> rest' = rest \<and> d' = d)"
  proof (intro conjI allI impI)
    show "\<not> r \<or> rest = []"
      by (rule fin)
  next
    fix calls :: "(nat \<times> nat) list"
    assume "(\<forall>(i, n) \<in> set calls. 0 < i \<and> 0 < n) \<and> length bs \<le> length calls"
    then show "drive calls BaseTarFilterImpl_init bs = Some (d, rest, out, r)"
      using total [of calls] by (elim conjE)
  next
    fix calls d' rest' out' r'
    assume "drive calls BaseTarFilterImpl_init bs = Some (d', rest', out', r') \<and> (\<not> r' \<or> rest' = [])"
    then have *: "out' = out \<and> r' = r \<and> rest' = rest \<and> d' = d"
      using agree [of calls d' rest' out' r'] by (elim conjE)
    from * show "out' = out" by (elim conjE)
    from * show "r' = r" by (elim conjE)
    from * show "rest' = rest" by (elim conjE)
    from * show "d' = d" by (elim conjE)
  qed
  show ?thesis
    by (rule exI [where x = d], rule exI [where x = rest], rule exI [where x = out],
        rule exI [where x = r]) (rule body)
qed

theorem chunking_invariance_witness:
  "drive [(1536, 65536)] BaseTarFilterImpl_init hello_archive =
     Some (hello_done, [], [0x68, 0x69, 0x0A], False) \<and>
   drive [(300, 1), (212, 1), (1, 1), (1, 1), (1, 1), (1021, 1)] BaseTarFilterImpl_init hello_archive =
     Some (hello_done, [], [0x68, 0x69, 0x0A], False) \<and>
   drive (replicate 1536 (1, 1)) BaseTarFilterImpl_init hello_archive =
     Some (hello_done, [], [0x68, 0x69, 0x0A], False) \<and>
   drive (replicate 1536 (7, 3)) BaseTarFilterImpl_init hello_archive =
     Some (hello_done, [], [0x68, 0x69, 0x0A], False) \<and>
   drive (replicate 2000 (100, 65536)) BaseTarFilterImpl_init hello_archive =
     Some (hello_done, [], [0x68, 0x69, 0x0A], False)"
proof -
  from chunking_invariance [of hello_archive]
  obtain d rest out r where
    total: "\<forall>calls. (\<forall>(i, n) \<in> set calls. 0 < i \<and> 0 < n) \<and> length hello_archive \<le> length calls \<longrightarrow>
        drive calls BaseTarFilterImpl_init hello_archive = Some (d, rest, out, r)"
    and agree: "\<forall>calls d' rest' out' r'.
        drive calls BaseTarFilterImpl_init hello_archive = Some (d', rest', out', r') \<and>
        (\<not> r' \<or> rest' = []) \<longrightarrow> out' = out \<and> r' = r \<and> rest' = rest \<and> d' = d"
    by (elim exE conjE) (rule that)
  have len: "length hello_archive = 1536"
    by (simp add: hello_archive_def)
  have one: "drive [(1536, 65536)] BaseTarFilterImpl_init hello_archive =
      Some (hello_done, [], [0x68, 0x69, 0x0A], False) \<and> (\<not> False \<or> ([] :: byte list) = [])"
    using drive_hello_one_call by blast
  from agree [rule_format, OF one]
  have res: "Some (d, rest, out, r) = Some (hello_done, [], [0x68, 0x69, 0x0A], False)"
    by simp
  have a: "(\<forall>(i, n) \<in> set (replicate 1536 (1 :: nat, 1 :: nat)). 0 < i \<and> 0 < n) \<and>
      length hello_archive \<le> length (replicate 1536 (1 :: nat, 1 :: nat))"
    by (simp add: len)
  have b: "(\<forall>(i, n) \<in> set (replicate 1536 (7 :: nat, 3 :: nat)). 0 < i \<and> 0 < n) \<and>
      length hello_archive \<le> length (replicate 1536 (7 :: nat, 3 :: nat))"
    by (simp add: len)
  have c: "(\<forall>(i, n) \<in> set (replicate 2000 (100 :: nat, 65536 :: nat)). 0 < i \<and> 0 < n) \<and>
      length hello_archive \<le> length (replicate 2000 (100 :: nat, 65536 :: nat))"
    by (simp add: len)
  show ?thesis
    using drive_hello_one_call drive_hello_split_header total [rule_format, OF a]
      total [rule_format, OF b] total [rule_format, OF c]
    unfolding res by (intro conjI)
qed

section \<open>Entries that are not regular files\<close>

definition pax_entry :: "byte list" where
  "pax_entry = example_header octal_1 0x78 @ 0x41 # replicate 511 0"

text \<open>
  Claim C1 fails on the code.  \<open>pax_entry\<close> is one archive entry of 1024 bytes: a header
  with type flag \<open>x\<close> and declared size 1, then one block holding the payload byte and
  511 bytes of padding.  The decoder sets the size to zero and skips only the 511
  bytes the padding formula gives, so it takes byte 1023, the last byte of the entry,
  as the first byte of the next header: after the 1024 bytes it has one header byte
  buffered, where a decoder that had consumed payload and padding would have none.
\<close>

theorem non_regular_entry_misaligned:
  "filter_impl BaseTarFilterImpl_init pax_entry 1 =
     Some (\<lparr>header_buffer = 0 # replicate 123 0 @ octal_1 @ replicate 20 0 @ [0x78] @ replicate 355 0,
            header_bytes_read = 1, file_size = 0, file_bytes_read = 0,
            padding_bytes = 511, padding_bytes_skipped = 511, state = ReadHeader,
            current_file_name = [0x61]\<rparr>, [], [], True)"
proof -
  let ?d1 = "BaseTarFilterImpl_init\<lparr>header_buffer := example_header octal_1 0x78,
      header_bytes_read := 0, file_size := 0, file_bytes_read := 0, padding_bytes := 511,
      padding_bytes_skipped := 0, state := SkipPadding, current_file_name := [0x61]\<rparr>"
  have "filter_impl BaseTarFilterImpl_init pax_entry 1 = filter_impl ?d1 (0x41 # replicate 511 0) 1"
    unfolding pax_entry_def
    by (subst filter_impl_whole_header)
      (simp_all add: BaseTarFilterImpl_init_def header_complete_example)
  also have "\<dots> = filter_impl (padding_skip ?d1 511) [0] 1"
    by (subst filter_impl_SkipPadding [where k = 511]) (simp_all add: BaseTarFilterImpl_init_def)
  also have "\<dots> = Some (\<lparr>header_buffer = 0 # replicate 123 0 @ octal_1 @ replicate 20 0 @ [0x78] @ replicate 355 0,
            header_bytes_read = 1, file_size = 0, file_bytes_read = 0,
            padding_bytes = 511, padding_bytes_skipped = 511, state = ReadHeader,
            current_file_name = [0x61]\<rparr>, [], [], True)"
    by (simp add: filter_impl.simps filter_step_def filter_ReadHeader_def Let_def memcpy_def
        resize_def BaseTarFilterImpl_init_def padding_skip_def example_header_def)
  finally show ?thesis .
qed

section \<open>Reset\<close>

text \<open>
  \<open>close\<close> assigns every member but \<open>padding_bytes\<close>.  Two decoders that differ only in
  \<open>padding_bytes\<close>, while a header is being read or after the end marker, behave alike:
  the field is assigned when a header is complete and only read after that.
\<close>

definition unread_padding :: "BaseTarFilterImpl \<Rightarrow> BaseTarFilterImpl \<Rightarrow> bool" where
  "unread_padding d1 d2 \<longleftrightarrow>
     d1 = d2 \<or>
     (d2 = d1\<lparr>padding_bytes := padding_bytes d2\<rparr> \<and> (state d1 = ReadHeader \<or> state d1 = Done))"

definition step_agree :: "step \<Rightarrow> step \<Rightarrow> bool" where
  "step_agree s1 s2 \<longleftrightarrow>
     (case (s1, s2) of
        (Fault, Fault) \<Rightarrow> True
      | (ReturnFalse e1 k1, ReturnFalse e2 k2) \<Rightarrow> k1 = k2 \<and> unread_padding e1 e2
      | (Break e1 k1 w1, Break e2 k2 w2) \<Rightarrow> k1 = k2 \<and> w1 = w2 \<and> unread_padding e1 e2
      | _ \<Rightarrow> False)"

lemma step_agree_refl: "step_agree s s"
  by (cases s) (simp_all add: step_agree_def unread_padding_def)

lemma filter_ReadHeader_padding:
  "state d = ReadHeader \<Longrightarrow>
   step_agree (filter_ReadHeader d src) (filter_ReadHeader (d\<lparr>padding_bytes := p\<rparr>) src)"
  by (auto simp: filter_ReadHeader_def Let_def step_agree_def unread_padding_def
      filter_header_complete_def split: option.splits)

lemma filter_step_unread_padding:
  assumes "unread_padding d1 d2"
  shows "step_agree (filter_step d1 src n) (filter_step d2 src n)"
proof (cases "d1 = d2")
  case True
  then show ?thesis
    by (simp add: step_agree_refl)
next
  case False
  define p where "p = padding_bytes d2"
  from False assms have d2: "d2 = d1\<lparr>padding_bytes := p\<rparr>"
    and st: "state d1 = ReadHeader \<or> state d1 = Done"
    unfolding p_def by (auto simp: unread_padding_def)
  from st show ?thesis
  proof
    assume h: "state d1 = ReadHeader"
    have "step_agree (filter_ReadHeader d1 src) (filter_ReadHeader (d1\<lparr>padding_bytes := p\<rparr>) src)"
      using h by (rule filter_ReadHeader_padding)
    then show ?thesis
      using h by (simp add: filter_step_def d2)
  next
    assume h: "state d1 = Done"
    then show ?thesis
      by (simp add: filter_step_def d2 step_agree_def unread_padding_def)
  qed
qed

definition result_agree :: "(BaseTarFilterImpl \<times> byte list \<times> byte list \<times> bool) option \<Rightarrow>
    (BaseTarFilterImpl \<times> byte list \<times> byte list \<times> bool) option \<Rightarrow> bool" where
  "result_agree r1 r2 \<longleftrightarrow>
     (case (r1, r2) of
        (None, None) \<Rightarrow> True
      | (Some (e1, rest1, out1, c1), Some (e2, rest2, out2, c2)) \<Rightarrow>
          rest1 = rest2 \<and> out1 = out2 \<and> c1 = c2 \<and> unread_padding e1 e2
      | _ \<Rightarrow> False)"

lemma result_agree_emit: "result_agree r1 r2 \<Longrightarrow> result_agree (emit w r1) (emit w r2)"
  by (auto simp: result_agree_def emit_def split: option.splits)

lemma filter_impl_unread_padding:
  "unread_padding d1 d2 \<Longrightarrow> result_agree (filter_impl d1 src n) (filter_impl d2 src n)"
proof (induction d1 src n arbitrary: d2 rule: filter_impl.induct)
  case (1 d src n)
  show ?case
  proof (cases "src \<noteq> [] \<and> 0 < n")
    case False
    then show ?thesis
      using "1.prems" filter_impl_exit [of src n] by (auto simp: result_agree_def)
  next
    case True
    note agree = filter_step_unread_padding [OF "1.prems", of src n]
    show ?thesis
    proof (cases "filter_step d src n")
      case Fault
      with agree have "filter_step d2 src n = Fault"
        by (cases "filter_step d2 src n") (simp_all add: step_agree_def)
      with Fault True show ?thesis
        by (simp add: filter_impl_Fault result_agree_def)
    next
      case (ReturnFalse e1 k)
      with agree obtain e2 where r2: "filter_step d2 src n = ReturnFalse e2 k"
        and u: "unread_padding e1 e2"
        by (cases "filter_step d2 src n") (simp_all add: step_agree_def)
      with ReturnFalse True show ?thesis
        by (simp add: filter_impl_ReturnFalse result_agree_def)
    next
      case (Break e1 k w)
      with agree obtain e2 where b2: "filter_step d2 src n = Break e2 k w"
        and u: "unread_padding e1 e2"
        by (cases "filter_step d2 src n") (simp_all add: step_agree_def)
      from "1.IH" [OF True Break u]
      have "result_agree (filter_impl e1 (drop k src) (n - length w))
          (filter_impl e2 (drop k src) (n - length w))" .
      then show ?thesis
        using True Break b2 by (simp add: filter_impl_Break_emit result_agree_emit)
    qed
  qed
qed

lemma drive_unread_padding:
  "unread_padding d1 d2 \<Longrightarrow> result_agree (drive calls d1 bs) (drive calls d2 bs)"
proof (induction calls arbitrary: d1 d2 bs)
  case Nil
  then show ?case
    by (simp add: result_agree_def)
next
  case (Cons c calls)
  obtain i n where c: "c = (i, n)"
    by (cases c)
  from filter_impl_unread_padding [OF Cons.prems, of "take i bs" n]
  consider "filter_impl d1 (take i bs) n = None" "filter_impl d2 (take i bs) n = None"
    | e1 e2 rest out r where "filter_impl d1 (take i bs) n = Some (e1, rest, out, r)"
      "filter_impl d2 (take i bs) n = Some (e2, rest, out, r)" "unread_padding e1 e2"
    by (auto simp: result_agree_def split: option.splits)
  then show ?case
  proof cases
    case 1
    then show ?thesis
      by (simp add: c result_agree_def)
  next
    case 2
    show ?thesis
    proof (cases r)
      case True
      from Cons.IH [OF 2(3), of "rest @ drop i bs"] show ?thesis
        using 2 True by (simp add: c result_agree_emit)
    next
      case False
      then show ?thesis
        using 2 by (simp add: c result_agree_def)
    qed
  qed
qed

lemma drive_total:
  "filter_inv d \<Longrightarrow> \<exists>res. drive calls d bs = Some res"
proof (induction calls arbitrary: d bs)
  case Nil
  then show ?case
    by auto
next
  case (Cons c calls)
  obtain i n where c: "c = (i, n)"
    by (cases c)
  from filter_impl_total [OF Cons.prems, of "take i bs" n]
  obtain d1 rest1 out1 r1 where call: "filter_impl d (take i bs) n = Some (d1, rest1, out1, r1)"
    and inv1: "filter_inv d1"
    by blast
  from Cons.IH [OF inv1, of "rest1 @ drop i bs"]
  obtain res where "drive calls d1 (rest1 @ drop i bs) = Some res"
    by blast
  then show ?case
    by (cases res) (auto simp: c call)
qed

lemma close_eq: "close d = BaseTarFilterImpl_init\<lparr>padding_bytes := padding_bytes d\<rparr>"
  by (simp add: close_def BaseTarFilterImpl_init_def)

text \<open>
  After \<open>close\<close> every member but \<open>padding_bytes\<close> has its initial value, and any
  sequence of calls consumes, writes and returns what it does on a new decoder.
\<close>

lemma close_then_decode:
  "close d = BaseTarFilterImpl_init\<lparr>padding_bytes := padding_bytes d\<rparr> \<and>
   (\<exists>e1 e2 rest out r.
      drive calls (close d) bs = Some (e1, rest, out, r) \<and>
      drive calls BaseTarFilterImpl_init bs = Some (e2, rest, out, r) \<and>
      e1 = e2\<lparr>padding_bytes := padding_bytes e1\<rparr>)"
proof -
  have "unread_padding BaseTarFilterImpl_init (close d)"
    by (simp add: unread_padding_def close_eq BaseTarFilterImpl_init_def)
  from drive_unread_padding [OF this, of calls bs]
  have agree: "result_agree (drive calls BaseTarFilterImpl_init bs) (drive calls (close d) bs)" .
  from drive_total [OF filter_inv_init, of calls bs]
  obtain e2 rest out r where b: "drive calls BaseTarFilterImpl_init bs = Some (e2, rest, out, r)"
    by (metis prod_cases4)
  with agree obtain e1 where a: "drive calls (close d) bs = Some (e1, rest, out, r)"
    and u: "unread_padding e2 e1"
    by (auto simp: result_agree_def split: option.splits)
  from u have "e1 = e2\<lparr>padding_bytes := padding_bytes e1\<rparr>"
    by (auto simp: unread_padding_def)
  with a b close_eq show ?thesis
    by blast
qed

text \<open>
  Claim C3 fails on the code.  A new decoder that has read the header of a regular file of
  size 1 holds \<open>padding_bytes = 511\<close>; \<open>close\<close> leaves that value, where a new
  decoder has 0.
\<close>

theorem close_keeps_padding_bytes:
  "filter_impl BaseTarFilterImpl_init (example_header octal_1 0x30) 1 =
     Some (\<lparr>header_buffer = example_header octal_1 0x30, header_bytes_read = 0, file_size = 1,
            file_bytes_read = 0, padding_bytes = 511, padding_bytes_skipped = 0,
            state = ReadFileData, current_file_name = [0x61]\<rparr>, [], [], True) \<and>
   padding_bytes (close \<lparr>header_buffer = example_header octal_1 0x30, header_bytes_read = 0,
     file_size = 1, file_bytes_read = 0, padding_bytes = 511, padding_bytes_skipped = 0,
     state = ReadFileData, current_file_name = [0x61]\<rparr>) = 511 \<and>
   padding_bytes BaseTarFilterImpl_init = 0"
  by (simp add: run_simps close_def)

section \<open>The base-256 parser\<close>

text \<open>\<open>be64\<close> is the 64-bit word the second loop builds from the last eight bytes.\<close>

definition be64 :: "byte \<Rightarrow> byte \<Rightarrow> byte \<Rightarrow> byte \<Rightarrow> byte \<Rightarrow> byte \<Rightarrow> byte \<Rightarrow> byte \<Rightarrow> 64 word" where
  "be64 b4 b5 b6 b7 b8 b9 b10 b11 =
     push_bit 56 (ucast b4) OR push_bit 48 (ucast b5) OR push_bit 40 (ucast b6) OR
     push_bit 32 (ucast b7) OR push_bit 24 (ucast b8) OR push_bit 16 (ucast b9) OR
     push_bit 8 (ucast b10) OR ucast b11"

lemma parse_base256_12:
  "parse_base256_impl [b0, b1, b2, b3, b4, b5, b6, b7, b8, b9, b10, b11] 12 =
    (let neg = (if b0 AND 0x40 \<noteq> 0 then 0xFF else 0 :: byte);
         c0 = (if b0 AND 0x40 \<noteq> 0 then b0 OR 0x80 else b0 AND 0x7F)
     in if c0 \<noteq> neg \<or> b1 \<noteq> neg \<or> b2 \<noteq> neg \<or> b3 \<noteq> neg \<or> (b4 XOR neg) AND 0x80 \<noteq> 0
        then (if neg \<noteq> 0 then INT64_MIN else INT64_MAX)
        else be64 b4 b5 b6 b7 b8 b9 b10 b11)"
  by (simp add: parse_base256_impl_def base256_skip.simps base256_accum.simps Let_def be64_def
      or.assoc)

text \<open>
  The field in the words of the specification.  \<open>be96\<close> reads bytes as a big-endian
  number of 96 bits; \<open>base256_value\<close> is the value of a 12-byte field as a two's-complement
  integer whose sign is bit \<open>0x40\<close> of the first byte, the marker bit \<open>0x80\<close> standing
  for one more copy of the sign; \<open>encode_base256\<close> writes an integer as the twelve
  big-endian bytes of its 96-bit two's complement, with the marker bit set.
\<close>

definition be96 :: "byte list \<Rightarrow> 96 word" where
  "be96 p = foldl (\<lambda>a b. push_bit 8 a OR ucast b) 0 p"

definition base256_value :: "byte list \<Rightarrow> int" where
  "base256_value p =
     sint (be96 ((if p ! 0 AND 0x40 \<noteq> 0 then p ! 0 OR 0x80 else p ! 0 AND 0x7F) # tl p))"

definition encode_base256 :: "int \<Rightarrow> byte list" where
  "encode_base256 v =
     (let w = (word_of_int v :: 96 word)
      in [ucast (drop_bit 88 w) OR 0x80, ucast (drop_bit 80 w), ucast (drop_bit 72 w),
          ucast (drop_bit 64 w), ucast (drop_bit 56 w), ucast (drop_bit 48 w),
          ucast (drop_bit 40 w), ucast (drop_bit 32 w), ucast (drop_bit 24 w),
          ucast (drop_bit 16 w), ucast (drop_bit 8 w), ucast w])"

lemma and_0x80: "(b AND 0x80 \<noteq> 0) = bit (b :: byte) 7"
  using bit_iff_and_push_bit_not_eq_0 [of b 7] by simp

lemma byte_eq_0xFF: "(b = (0xFF :: byte)) = (\<forall>n<8. bit b n)"
proof -
  have m: "(0xFF :: byte) = - 1"
    by simp
  show ?thesis
    unfolding m by (auto simp: bit_eq_iff dest: bit_imp_le_length)
qed

lemma byte_eq_0: "(b = (0 :: byte)) = (\<forall>n<8. \<not> bit b n)"
  by (auto simp: bit_eq_iff bit_simps dest: bit_imp_le_length)

lemma bit_be64:
  "bit (be64 b4 b5 b6 b7 b8 b9 b10 b11) n =
    (if n < 8 then bit b11 n else if n < 16 then bit b10 (n - 8)
     else if n < 24 then bit b9 (n - 16) else if n < 32 then bit b8 (n - 24)
     else if n < 40 then bit b7 (n - 32) else if n < 48 then bit b6 (n - 40)
     else if n < 56 then bit b5 (n - 48) else if n < 64 then bit b4 (n - 56) else False)"
proof -
  have out: "\<not> bit (b :: byte) m" if "8 \<le> m" for b m
    using that bit_imp_le_length [of b m] by auto
  consider "n < 8" | "8 \<le> n" "n < 16" | "16 \<le> n" "n < 24" | "24 \<le> n" "n < 32"
    | "32 \<le> n" "n < 40" | "40 \<le> n" "n < 48" | "48 \<le> n" "n < 56" | "56 \<le> n" "n < 64"
    | "64 \<le> n"
    by linarith
  then show ?thesis
  proof cases
    case 1 then show ?thesis by (simp add: be64_def bit_simps)
  next
    case 2 then show ?thesis by (auto simp: be64_def bit_simps out)
  next
    case 3 then show ?thesis by (auto simp: be64_def bit_simps out)
  next
    case 4 then show ?thesis by (auto simp: be64_def bit_simps out)
  next
    case 5 then show ?thesis by (auto simp: be64_def bit_simps out)
  next
    case 6 then show ?thesis by (auto simp: be64_def bit_simps out)
  next
    case 7 then show ?thesis by (auto simp: be64_def bit_simps out)
  next
    case 8 then show ?thesis by (auto simp: be64_def bit_simps out)
  next
    case 9 then show ?thesis by (simp add: be64_def bit_simps)
  qed
qed

lemma be64_bytes:
  "be64 (ucast (drop_bit 56 w)) (ucast (drop_bit 48 w)) (ucast (drop_bit 40 w))
     (ucast (drop_bit 32 w)) (ucast (drop_bit 24 w)) (ucast (drop_bit 16 w))
     (ucast (drop_bit 8 w)) (ucast w) = (ucast (w :: 96 word) :: 64 word)"
  by (rule bit_word_eqI) (auto simp: bit_be64 bit_simps)

lemma bit_be64_63: "bit (be64 b4 b5 b6 b7 b8 b9 b10 b11) 63 = bit b4 7"
  by (simp add: bit_be64)

lemma sint_neg_96: "(sint (w :: 96 word) < 0) = bit w 95"
  using bit_last_iff [of w] by simp

lemma list12:
  "length (p :: byte list) = 12 \<Longrightarrow>
   \<exists>b0 b1 b2 b3 b4 b5 b6 b7 b8 b9 b10 b11. p = [b0, b1, b2, b3, b4, b5, b6, b7, b8, b9, b10, b11]"
  by (simp add: eval_nat_numeral length_Suc_conv) blast

lemma sint_scast_96: "sint (scast (w :: 64 word) :: 96 word) = sint w"
  by (rule sint_up_scast) (simp add: is_up)

lemma encode_decode_word:
  fixes w :: "64 word"
  shows "parse_base256_impl (encode_base256 (sint w)) 12 = w"
proof -
  define W :: "96 word" where "W = scast w"
  have W: "word_of_int (sint w) = W"
    by (simp add: W_def)
  have bW: "bit W n = (n < 96 \<and> bit w (min 63 n))" for n
    by (simp add: W_def bit_simps)
  have hi: "bit (ucast (drop_bit k W) :: byte) n = (n < 8 \<and> bit w 63)" if "64 \<le> k" "k \<le> 88" for k n
    using that by (auto simp: bit_simps bW min_def)
  have b4: "bit (ucast (drop_bit 56 W) :: byte) 7 = bit w 63"
    by (simp add: bit_simps bW)
  have low: "(ucast W :: 64 word) = w"
  proof (rule bit_word_eqI)
    fix n
    assume n: "n < LENGTH(64)"
    then have "min 63 n = n"
      by simp
    then show "bit (ucast W :: 64 word) n = bit w n"
      using n by (simp add: bit_simps bW)
  qed
  show ?thesis
  proof (cases "bit w 63")
    case True
    have top: "ucast (drop_bit 88 W) = (0xFF :: byte)" "ucast (drop_bit 80 W) = (0xFF :: byte)"
      "ucast (drop_bit 72 W) = (0xFF :: byte)" "ucast (drop_bit 64 W) = (0xFF :: byte)"
      unfolding byte_eq_0xFF using True by (simp_all add: hi)
    have sign: "(ucast (drop_bit 56 W) XOR 0xFF) AND (0x80 :: byte) = 0"
      using and_0x80 [of "ucast (drop_bit 56 W) XOR 0xFF"] b4 True
      by (simp add: bit_simps)
    show ?thesis
      unfolding encode_base256_def W Let_def parse_base256_12 top
      using sign by (simp add: be64_bytes low)
  next
    case False
    have top: "ucast (drop_bit 88 W) = (0 :: byte)" "ucast (drop_bit 80 W) = (0 :: byte)"
      "ucast (drop_bit 72 W) = (0 :: byte)" "ucast (drop_bit 64 W) = (0 :: byte)"
      unfolding byte_eq_0 using False by (simp_all add: hi)
    have sign: "ucast (drop_bit 56 W) AND (0x80 :: byte) = 0"
      using and_0x80 [of "ucast (drop_bit 56 W)"] b4 False by simp
    show ?thesis
      unfolding encode_base256_def W Let_def parse_base256_12 top
      using sign by (simp add: be64_bytes low)
  qed
qed

lemma be96_12:
  "be96 [c0, b1, b2, b3, b4, b5, b6, b7, b8, b9, b10, b11] =
     push_bit 88 (ucast c0) OR push_bit 80 (ucast b1) OR push_bit 72 (ucast b2) OR
     push_bit 64 (ucast b3) OR ucast (be64 b4 b5 b6 b7 b8 b9 b10 b11)"
  unfolding be96_def
  by (rule bit_word_eqI) (auto simp: bit_simps bit_be64 dest: bit_imp_le_length)

lemma bit_be96_95:
  "bit (be96 [c0, b1, b2, b3, b4, b5, b6, b7, b8, b9, b10, b11]) 95 = bit c0 7"
  unfolding be96_12 by (auto simp: bit_simps dest: bit_imp_le_length)

lemma be96_sign_extended:
  assumes "\<forall>n<8. bit c0 n = s" and "\<forall>n<8. bit b1 n = s" and "\<forall>n<8. bit b2 n = s"
    and "\<forall>n<8. bit b3 n = s" and "bit b4 7 = s"
  shows "be96 [c0, b1, b2, b3, b4, b5, b6, b7, b8, b9, b10, b11] =
    scast (be64 b4 b5 b6 b7 b8 b9 b10 b11)"
proof (rule bit_word_eqI)
  fix n
  assume n: "n < LENGTH(96)"
  define R where "R = be64 b4 b5 b6 b7 b8 b9 b10 b11"
  have out: "\<not> bit (b :: byte) m" if "8 \<le> m" for b m
    using that bit_imp_le_length [of b m] by auto
  have R63: "bit R 63 = s"
    using assms(5) by (simp add: R_def bit_be64_63)
  consider "n < 63" | "n = 63" | "64 \<le> n" "n < 72" | "72 \<le> n" "n < 80" | "80 \<le> n" "n < 88"
    | "88 \<le> n" "n < 96"
    using n by fastforce
  then have "bit (push_bit 88 (ucast c0) OR push_bit 80 (ucast b1) OR push_bit 72 (ucast b2) OR
     push_bit 64 (ucast b3) OR (ucast R :: 96 word)) n = bit (scast R :: 96 word) n"
  proof cases
    case 1
    then show ?thesis
      by (simp add: bit_simps)
  next
    case 2
    then show ?thesis
      by (simp add: bit_simps)
  next
    case 3
    then have "bit b3 (n - 64) = s"
      using assms(4) by simp
    with 3 R63 show ?thesis
      by (auto simp: bit_simps out dest: bit_imp_le_length)
  next
    case 4
    then have "bit b2 (n - 72) = s"
      using assms(3) by simp
    with 4 R63 show ?thesis
      by (auto simp: bit_simps out dest: bit_imp_le_length)
  next
    case 5
    then have "bit b1 (n - 80) = s"
      using assms(2) by simp
    with 5 R63 show ?thesis
      by (auto simp: bit_simps out dest: bit_imp_le_length)
  next
    case 6
    then have "bit c0 (n - 88) = s"
      using assms(1) by simp
    with 6 R63 show ?thesis
      by (auto simp: bit_simps out dest: bit_imp_le_length)
  qed
  then show "bit (be96 [c0, b1, b2, b3, b4, b5, b6, b7, b8, b9, b10, b11]) n =
      bit (scast (be64 b4 b5 b6 b7 b8 b9 b10 b11) :: 96 word) n"
    by (simp only: be96_12 R_def)
qed

lemma int_high_bits:
  assumes "- (2 ^ 63) \<le> (k :: int)" and "k < 2 ^ 63" and "63 \<le> n"
  shows "bit k n = bit k 63"
proof -
  have "signed_take_bit 63 k = k"
    using assms(1,2) by (simp add: signed_take_bit_int_eq_self)
  then have "bit k n = bit (signed_take_bit 63 k) n"
    by simp
  also have "\<dots> = bit k 63"
    using assms(3) by (simp add: bit_signed_take_bit_iff min_def)
  finally show ?thesis .
qed

lemma word96_high_bits:
  fixes F :: "96 word"
  assumes "- (2 ^ 63) \<le> sint F" and "sint F < 2 ^ 63" and "63 \<le> n" and "n < 96"
  shows "bit F n = bit F 63"
proof -
  have "bit F m = bit (sint F) m" if "m < 96" for m
    using that by (simp add: bit_sint_iff)
  then show ?thesis
    using int_high_bits [OF assms(1,2,3)] assms(4) by simp
qed

definition base256_sign :: "byte \<Rightarrow> byte" where
  "base256_sign b0 = (if b0 AND 0x40 \<noteq> 0 then b0 OR 0x80 else b0 AND 0x7F)"

lemma bit_base256_sign_7: "bit (base256_sign b0) 7 = (b0 AND 0x40 \<noteq> 0)"
proof (cases "b0 AND 0x40 \<noteq> 0")
  case True
  then show ?thesis
    by (simp add: base256_sign_def bit_simps)
next
  case False
  have "\<not> bit (b0 AND 0x7F) 7"
    by (simp add: bit_simps)
  with False show ?thesis
    by (simp add: base256_sign_def)
qed

lemma parse_base256_cases:
  fixes b0 b1 b2 b3 b4 :: byte
  defines "s \<equiv> b0 AND 0x40 \<noteq> 0"
  defines "ok \<equiv> (\<forall>n<8. bit (base256_sign b0) n = s) \<and> (\<forall>n<8. bit b1 n = s) \<and>
    (\<forall>n<8. bit b2 n = s) \<and> (\<forall>n<8. bit b3 n = s) \<and> bit b4 7 = s"
  shows "parse_base256_impl [b0, b1, b2, b3, b4, b5, b6, b7, b8, b9, b10, b11] 12 =
    (if ok then be64 b4 b5 b6 b7 b8 b9 b10 b11 else if s then INT64_MIN else INT64_MAX)"
proof (cases s)
  case True
  then have s: "b0 AND 0x40 \<noteq> 0"
    by (simp add: s_def)
  have x: "((b4 XOR 0xFF) AND 0x80 = 0) = bit b4 7"
    using and_0x80 [of "b4 XOR 0xFF"] by (simp add: bit_simps)
  have e: "(\<forall>n<8. bit c n = s) = (c = 0xFF)" for c :: byte
    using True by (simp add: byte_eq_0xFF)
  have ok: "ok = (b0 OR 0x80 = 0xFF \<and> b1 = 0xFF \<and> b2 = 0xFF \<and> b3 = 0xFF \<and> bit b4 7)"
    unfolding ok_def e using True s by (simp add: base256_sign_def)
  have "parse_base256_impl [b0, b1, b2, b3, b4, b5, b6, b7, b8, b9, b10, b11] 12 =
      (if b0 OR 0x80 \<noteq> 0xFF \<or> b1 \<noteq> 0xFF \<or> b2 \<noteq> 0xFF \<or> b3 \<noteq> 0xFF \<or> \<not> bit b4 7
       then INT64_MIN else be64 b4 b5 b6 b7 b8 b9 b10 b11)"
    unfolding parse_base256_12 Let_def using s by (auto simp: x)
  also have "\<dots> = (if ok then be64 b4 b5 b6 b7 b8 b9 b10 b11 else INT64_MIN)"
    unfolding ok by auto
  finally show ?thesis
    using True by simp
next
  case False
  then have s: "b0 AND 0x40 = 0"
    by (simp add: s_def)
  have x: "(b4 AND 0x80 = 0) = (\<not> bit b4 7)"
    using and_0x80 [of b4] by auto
  have e: "(\<forall>n<8. bit c n = s) = (c = 0)" for c :: byte
    using False by (simp add: byte_eq_0)
  have ok: "ok = (b0 AND 0x7F = 0 \<and> b1 = 0 \<and> b2 = 0 \<and> b3 = 0 \<and> \<not> bit b4 7)"
    unfolding ok_def e using False s by (simp add: base256_sign_def)
  have "parse_base256_impl [b0, b1, b2, b3, b4, b5, b6, b7, b8, b9, b10, b11] 12 =
      (if b0 AND 0x7F \<noteq> 0 \<or> b1 \<noteq> 0 \<or> b2 \<noteq> 0 \<or> b3 \<noteq> 0 \<or> bit b4 7
       then INT64_MAX else be64 b4 b5 b6 b7 b8 b9 b10 b11)"
    unfolding parse_base256_12 Let_def using s by (auto simp: x)
  also have "\<dots> = (if ok then be64 b4 b5 b6 b7 b8 b9 b10 b11 else INT64_MAX)"
    unfolding ok by auto
  finally show ?thesis
    using False by simp
qed

lemma bit_be96_high:
  fixes c0 b1 b2 b3 b4 b5 b6 b7 b8 b9 b10 b11 :: byte
  defines "F \<equiv> be96 [c0, b1, b2, b3, b4, b5, b6, b7, b8, b9, b10, b11]"
  shows "m < 8 \<Longrightarrow> bit F (88 + m) = bit c0 m"
    and "m < 8 \<Longrightarrow> bit F (80 + m) = bit b1 m"
    and "m < 8 \<Longrightarrow> bit F (72 + m) = bit b2 m"
    and "m < 8 \<Longrightarrow> bit F (64 + m) = bit b3 m"
    and "bit F 63 = bit b4 7"
  unfolding F_def be96_12
  by (auto simp: bit_simps bit_be64 dest: bit_imp_le_length)

lemma base256_value_12:
  "base256_value [b0, b1, b2, b3, b4, b5, b6, b7, b8, b9, b10, b11] =
     sint (be96 [base256_sign b0, b1, b2, b3, b4, b5, b6, b7, b8, b9, b10, b11])"
  by (simp add: base256_value_def base256_sign_def)

lemma parse_base256_value:
  fixes p :: "byte list"
  assumes "length p = 12"
  shows "parse_base256_impl p 12 =
    (if - (2 ^ 63) \<le> base256_value p \<and> base256_value p < 2 ^ 63 then word_of_int (base256_value p)
     else if p ! 0 AND 0x40 \<noteq> 0 then INT64_MIN else INT64_MAX)"
    and "(base256_value p < 0) = (p ! 0 AND 0x40 \<noteq> 0)"
proof -
  from list12 [OF assms] obtain b0 b1 b2 b3 b4 b5 b6 b7 b8 b9 b10 b11
    where p: "p = [b0, b1, b2, b3, b4, b5, b6, b7, b8, b9, b10, b11]"
    by blast
  define s where "s = (b0 AND 0x40 \<noteq> 0)"
  define c0 where "c0 = base256_sign b0"
  define F where "F = be96 [c0, b1, b2, b3, b4, b5, b6, b7, b8, b9, b10, b11]"
  define R where "R = be64 b4 b5 b6 b7 b8 b9 b10 b11"
  define ok where "ok = ((\<forall>n<8. bit c0 n = s) \<and> (\<forall>n<8. bit b1 n = s) \<and>
    (\<forall>n<8. bit b2 n = s) \<and> (\<forall>n<8. bit b3 n = s) \<and> bit b4 7 = s)"
  have v: "base256_value p = sint F"
    by (simp add: p base256_value_12 F_def c0_def)
  have parse: "parse_base256_impl p 12 = (if ok then R else if s then INT64_MIN else INT64_MAX)"
    unfolding p parse_base256_cases ok_def s_def c0_def R_def by simp
  have sp: "(p ! 0 AND 0x40 \<noteq> 0) = s"
    by (simp add: p s_def)
  have c7: "bit c0 7 = s"
    by (simp add: c0_def s_def bit_base256_sign_7)
  have neg: "(sint F < 0) = s"
    unfolding sint_neg_96 F_def bit_be96_95 by (rule c7)
  show "(base256_value p < 0) = (p ! 0 AND 0x40 \<noteq> 0)"
    unfolding v sp by (rule neg)
  have ok_range: "- (2 ^ 63) \<le> sint F \<and> sint F < 2 ^ 63 \<and> word_of_int (sint F) = R" if ok
  proof -
    have "F = scast R"
      unfolding F_def R_def using that unfolding ok_def by (intro be96_sign_extended) auto
    then have "sint F = sint R"
      by (simp add: sint_scast_96)
    then show ?thesis
      using sint_ge [of R] sint_lt [of R] by simp
  qed
  have range_ok: ok if lo: "- (2 ^ 63) \<le> sint F" and hi: "sint F < 2 ^ 63"
  proof -
    have high: "bit F n = bit F 63" if "63 \<le> n" "n < 96" for n
      using word96_high_bits [OF lo hi that] .
    have "bit F 95 = s"
      unfolding F_def bit_be96_95 by (rule c7)
    then have s63: "bit F 63 = s"
      using high [of 95] by simp
    have all: "bit F n = s" if "63 \<le> n" "n < 96" for n
      using high [OF that] s63 by simp
    have "bit c0 m = s" if "m < 8" for m
      using all [of "88 + m"] that bit_be96_high(1) [OF that, of c0 b1 b2 b3 b4 b5 b6 b7 b8 b9 b10 b11]
      by (simp add: F_def)
    moreover have "bit b1 m = s" if "m < 8" for m
      using all [of "80 + m"] that bit_be96_high(2) [OF that, of c0 b1 b2 b3 b4 b5 b6 b7 b8 b9 b10 b11]
      by (simp add: F_def)
    moreover have "bit b2 m = s" if "m < 8" for m
      using all [of "72 + m"] that bit_be96_high(3) [OF that, of c0 b1 b2 b3 b4 b5 b6 b7 b8 b9 b10 b11]
      by (simp add: F_def)
    moreover have "bit b3 m = s" if "m < 8" for m
      using all [of "64 + m"] that bit_be96_high(4) [OF that, of c0 b1 b2 b3 b4 b5 b6 b7 b8 b9 b10 b11]
      by (simp add: F_def)
    moreover have "bit b4 7 = s"
      using s63 bit_be96_high(5) [of c0 b1 b2 b3 b4 b5 b6 b7 b8 b9 b10 b11] by (simp add: F_def)
    ultimately show ?thesis
      by (simp add: ok_def)
  qed
  show "parse_base256_impl p 12 =
    (if - (2 ^ 63) \<le> base256_value p \<and> base256_value p < 2 ^ 63 then word_of_int (base256_value p)
     else if p ! 0 AND 0x40 \<noteq> 0 then INT64_MIN else INT64_MAX)"
  proof (cases ok)
    case True
    with ok_range [OF True] show ?thesis
      unfolding v sp by (simp add: parse)
  next
    case False
    with range_ok have "\<not> (- (2 ^ 63) \<le> sint F \<and> sint F < 2 ^ 63)"
      by blast
    with False show ?thesis
      unfolding v sp by (auto simp: parse)
  qed
qed

lemma encode_marker: "encode_base256 v ! 0 AND 0x80 \<noteq> 0"
  unfolding and_0x80 by (simp add: encode_base256_def Let_def bit_simps)

lemma sint_word64_of_int:
  "- (2 ^ 63) \<le> v \<Longrightarrow> v < 2 ^ 63 \<Longrightarrow> sint (word_of_int v :: 64 word) = v"
  by (simp add: sint_sbintrunc' signed_take_bit_int_eq_self)

text \<open>
  Claim C7.  For every integer \<open>v\<close> of the signed 64-bit range the parser returns \<open>v\<close>
  on the encoding of \<open>v\<close>, and \<open>parse_file_size_impl\<close> takes the base-256 path on it.
  For every 12-byte field: the value is negative exactly when bit \<open>0x40\<close> of the first
  byte is set, and so is the result; a value inside the signed 64-bit range is returned
  exactly; a value above it gives \<open>INT64_MAX\<close> and a value below it \<open>INT64_MIN\<close>.
\<close>

theorem parse_base256_impl_clamps:
  "(- (2 ^ 63) \<le> v \<and> v < 2 ^ 63 \<longrightarrow>
      sint (parse_base256_impl (encode_base256 v) 12) = v \<and>
      (TarHeader_size tar = encode_base256 v \<longrightarrow> parse_file_size_impl tar = word_of_int v)) \<and>
   (length p = 12 \<longrightarrow>
      (base256_value p < 0) = (p ! 0 AND 0x40 \<noteq> 0) \<and>
      (sint (parse_base256_impl p 12) < 0) = (p ! 0 AND 0x40 \<noteq> 0) \<and>
      (- (2 ^ 63) \<le> base256_value p \<and> base256_value p < 2 ^ 63 \<longrightarrow>
         sint (parse_base256_impl p 12) = base256_value p) \<and>
      (2 ^ 63 \<le> base256_value p \<longrightarrow> parse_base256_impl p 12 = INT64_MAX) \<and>
      (base256_value p < - (2 ^ 63) \<longrightarrow> parse_base256_impl p 12 = INT64_MIN))"
proof -
  have enc: "parse_base256_impl (encode_base256 v) 12 = word_of_int v"
    if "- (2 ^ 63) \<le> v" "v < 2 ^ 63"
    using encode_decode_word [of "word_of_int v"] sint_word64_of_int [OF that] by simp
  have a: "sint (parse_base256_impl (encode_base256 v) 12) = v \<and>
      (TarHeader_size tar = encode_base256 v \<longrightarrow> parse_file_size_impl tar = word_of_int v)"
    if "- (2 ^ 63) \<le> v" "v < 2 ^ 63"
    using enc [OF that] sint_word64_of_int [OF that] encode_marker [of v]
    by (simp add: parse_file_size_impl_def)
  have b: "(base256_value p < 0) = (p ! 0 AND 0x40 \<noteq> 0) \<and>
      (sint (parse_base256_impl p 12) < 0) = (p ! 0 AND 0x40 \<noteq> 0) \<and>
      (- (2 ^ 63) \<le> base256_value p \<and> base256_value p < 2 ^ 63 \<longrightarrow>
         sint (parse_base256_impl p 12) = base256_value p) \<and>
      (2 ^ 63 \<le> base256_value p \<longrightarrow> parse_base256_impl p 12 = INT64_MAX) \<and>
      (base256_value p < - (2 ^ 63) \<longrightarrow> parse_base256_impl p 12 = INT64_MIN)"
    if len: "length p = 12"
  proof -
    note sg = parse_base256_value(2) [OF len]
    note pv = parse_base256_value(1) [OF len]
    have min: "sint INT64_MIN = - (2 ^ 63)" and max: "sint INT64_MAX = 2 ^ 63 - 1"
      by (simp_all add: INT64_MIN_def INT64_MAX_def)
    have in_range: "sint (parse_base256_impl p 12) = base256_value p"
      if "- (2 ^ 63) \<le> base256_value p" "base256_value p < 2 ^ 63"
      using that pv sint_word64_of_int [OF that] by simp
    have hi: "parse_base256_impl p 12 = INT64_MAX" if "2 ^ 63 \<le> base256_value p"
      using that pv sg by auto
    have lo: "parse_base256_impl p 12 = INT64_MIN" if "base256_value p < - (2 ^ 63)"
      using that pv sg by auto
    have sign: "(sint (parse_base256_impl p 12) < 0) = (p ! 0 AND 0x40 \<noteq> 0)"
    proof (cases "- (2 ^ 63) \<le> base256_value p \<and> base256_value p < 2 ^ 63")
      case True
      then show ?thesis
        using in_range sg by simp
    next
      case False
      then consider "2 ^ 63 \<le> base256_value p" | "base256_value p < - (2 ^ 63)"
        by linarith
      then show ?thesis
      proof cases
        case 1
        then show ?thesis
          using hi [OF 1] sg max by simp
      next
        case 2
        then show ?thesis
          using lo [OF 2] sg min by simp
      qed
    qed
    show ?thesis
      using sg sign in_range hi lo by blast
  qed
  show ?thesis
    using a b by blast
qed

definition field_2_64 :: "byte list" where
  "field_2_64 = [0x80, 0, 0, 1, 0, 0, 0, 0, 0, 0, 0, 0]"

definition field_neg_2_65 :: "byte list" where
  "field_neg_2_65 = [0xFF, 0xFF, 0xFF, 0xFE, 0, 0, 0, 0, 0, 0, 0, 0]"

lemma witness_values:
  "base256_value field_2_64 = 2 ^ 64" "base256_value field_neg_2_65 = - (2 ^ 65)"
  "encode_base256 8589934592 = [0x80, 0, 0, 0, 0, 0, 0, 2, 0, 0, 0, 0]"
  by (simp_all add: base256_value_def be96_def field_2_64_def field_neg_2_65_def
      encode_base256_def)

theorem parse_base256_impl_clamps_witness:
  "- (2 ^ 63) \<le> (8589934592 :: int) \<and> (8589934592 :: int) < 2 ^ 63 \<and>
   encode_base256 8589934592 = [0x80, 0, 0, 0, 0, 0, 0, 2, 0, 0, 0, 0] \<and>
   sint (parse_base256_impl (encode_base256 8589934592) 12) = 8589934592 \<and>
   length field_2_64 = 12 \<and> (2 :: int) ^ 63 \<le> base256_value field_2_64 \<and>
   parse_base256_impl field_2_64 12 = INT64_MAX \<and>
   length field_neg_2_65 = 12 \<and> base256_value field_neg_2_65 < - (2 ^ 63) \<and>
   parse_base256_impl field_neg_2_65 12 = INT64_MIN"
  using parse_base256_impl_clamps [of 8589934592 "[]" field_2_64]
    parse_base256_impl_clamps [of 8589934592 "[]" field_neg_2_65]
  by (simp add: witness_values) (simp add: field_2_64_def field_neg_2_65_def)

section \<open>Padding\<close>

definition octal_513 :: "byte list" where
  "octal_513 = [0x30, 0x30, 0x30, 0x30, 0x30, 0x30, 0x30, 0x31, 0x30, 0x30, 0x31, 0x00]"

lemma parse_file_size_513:
  "parse_file_size_impl (example_header octal_513 0x30) = 513"
proof -
  have "length octal_513 = 12"
    by (simp add: octal_513_def)
  then have "TarHeader_size (example_header octal_513 0x30) = octal_513"
    by simp
  then show ?thesis
    by (simp add: parse_file_size_impl_def parse_octal_impl_foldl octal_513_def octal_accum_def)
qed

lemma unat_padding:
  "unat ((512 - s mod 512) mod 512 :: size_t) = (512 - unat s mod 512) mod 512"
proof -
  have "s mod 512 \<le> 512"
    by (simp add: word_le_nat_alt unat_mod)
  then have "unat (512 - s mod 512) = 512 - unat s mod 512"
    by (simp add: unat_sub unat_mod)
  then show ?thesis
    by (simp add: unat_mod)
qed

text \<open>
  Claim C8.  When a header is parsed, with declared size \<open>s\<close>, the padding length stored
  is \<open>(512 - s mod 512) mod 512\<close> as a natural number, below 512; for the sizes 0, 1,
  511, 512, 513 and 1024 it is 0, 511, 1, 0, 511 and 0.
\<close>

theorem padding_bytes_formula:
  assumes "parse_file_size_impl (header_buffer d) = s"
  shows "unat (padding_bytes (filter_header_complete d)) = (512 - unat s mod 512) mod 512 \<and>
    unat (padding_bytes (filter_header_complete d)) < 512 \<and>
    (s = 0 \<longrightarrow> padding_bytes (filter_header_complete d) = 0) \<and>
    (s = 1 \<longrightarrow> padding_bytes (filter_header_complete d) = 511) \<and>
    (s = 511 \<longrightarrow> padding_bytes (filter_header_complete d) = 1) \<and>
    (s = 512 \<longrightarrow> padding_bytes (filter_header_complete d) = 0) \<and>
    (s = 513 \<longrightarrow> padding_bytes (filter_header_complete d) = 511) \<and>
    (s = 1024 \<longrightarrow> padding_bytes (filter_header_complete d) = 0)"
proof -
  have p: "padding_bytes (filter_header_complete d) = (512 - s mod 512) mod 512"
    by (simp add: filter_header_complete_def Let_def assms)
  show ?thesis
    unfolding p by (auto simp: unat_padding)
qed

theorem padding_bytes_formula_witness:
  "parse_file_size_impl
     (header_buffer (BaseTarFilterImpl_init\<lparr>header_buffer := example_header octal_513 0x30\<rparr>)) = 513 \<and>
   unat (padding_bytes (filter_header_complete
     (BaseTarFilterImpl_init\<lparr>header_buffer := example_header octal_513 0x30\<rparr>))) = 511 \<and>
   padding_bytes (filter_header_complete
     (BaseTarFilterImpl_init\<lparr>header_buffer := example_header octal_513 0x30\<rparr>)) = 511"
  using padding_bytes_formula
    [of "BaseTarFilterImpl_init\<lparr>header_buffer := example_header octal_513 0x30\<rparr>" 513]
  by (simp add: parse_file_size_513)

end
